theory Spec2Isabelle
  imports Main "HOL-Library.Sublist" "HOL-Library.Multiset"
begin

section \<open>Strings\<close>

text \<open>
  A Python \<open>str\<close> is modelled as a \<open>string\<close>. A character outside ASCII stands as the
  bytes of its UTF-8 encoding; every operation below searches for ASCII characters only,
  and no ASCII byte occurs inside a multi-byte UTF-8 sequence, so the operations agree
  with Python's on code points.
\<close>

text \<open>\<open>s.replace(old, new)\<close>: every occurrence of \<open>old\<close>, found left to right without
  overlap, becomes \<open>new\<close>. With an empty \<open>old\<close> Python puts \<open>new\<close> before every character
  and at the end.\<close>

function str_replace :: "string \<Rightarrow> string \<Rightarrow> string \<Rightarrow> string" where
  "str_replace old new s =
     (if old = [] then new @ concat (map (\<lambda>c. c # new) s)
      else if s = [] then []
      else if prefix old s then new @ str_replace old new (drop (length old) s)
      else hd s # str_replace old new (tl s))"
  by pat_completeness auto
termination
  by (relation "measure (\<lambda>(old, new, s). length s)") auto

declare str_replace.simps [simp del]

text \<open>\<open>s.split(sep)\<close> for a one-character separator: empty pieces are kept, and the
  result is never empty.\<close>

fun str_split :: "char \<Rightarrow> string \<Rightarrow> string list" where
  "str_split sep [] = [[]]"
| "str_split sep (c # cs) =
     (if c = sep then [] # str_split sep cs
      else (case str_split sep cs of
              [] \<Rightarrow> [[c]]
            | w # ws \<Rightarrow> (c # w) # ws))"

text \<open>\<open>s.rstrip(ch)\<close>, \<open>s.lstrip(ch)\<close> and \<open>s.strip(ch)\<close> for a one-character set.\<close>

definition str_lstrip :: "char \<Rightarrow> string \<Rightarrow> string" where
  "str_lstrip ch s = dropWhile (\<lambda>c. c = ch) s"

definition str_rstrip :: "char \<Rightarrow> string \<Rightarrow> string" where
  "str_rstrip ch s = rev (dropWhile (\<lambda>c. c = ch) (rev s))"

definition str_strip :: "char \<Rightarrow> string \<Rightarrow> string" where
  "str_strip ch s = str_rstrip ch (str_lstrip ch s)"

text \<open>\<open>s.lower()\<close> on the ASCII letters; every other character is left as it is.\<close>

definition char_lower :: "char \<Rightarrow> char" where
  "char_lower c =
     (let n = of_char c :: nat in if 65 \<le> n \<and> n \<le> 90 then char_of (n + 32) else c)"

definition str_lower :: "string \<Rightarrow> string" where
  "str_lower s = map char_lower s"

section \<open>Repository URLs\<close>

text \<open>
  \<open>urlparse(repo_url).path\<close>, for a URL that starts with \<open>https://github.com/\<close> (the
  only URLs \<open>_repo_parts\<close> parses): the parser deletes tab, line feed and carriage
  return, takes \<open>https\<close> as the scheme and \<open>github.com\<close> as the host, cuts the rest at the
  first \<open>#\<close> (fragment), then at the first \<open>?\<close> (query), and cuts the parameters off the
  last path segment at its first \<open>;\<close>.
\<close>

definition unsafe_url_char :: "char \<Rightarrow> bool" where
  "unsafe_url_char c \<longleftrightarrow> c = CHR 0x09 \<or> c = CHR 0x0A \<or> c = CHR 0x0D"

definition splitparams :: "string \<Rightarrow> string" where
  "splitparams p =
     (let segs = str_split CHR ''/'' p
      in if CHR '';'' \<in> set (last segs)
         then take (length p - length (last segs)) p @ takeWhile (\<lambda>c. c \<noteq> CHR '';'') (last segs)
         else p)"

definition urlparse_path :: "string \<Rightarrow> string" where
  "urlparse_path repo_url =
     (let rest = drop 18 (filter (\<lambda>c. \<not> unsafe_url_char c) repo_url);
          no_fragment = takeWhile (\<lambda>c. c \<noteq> CHR ''#'') rest;
          no_query = takeWhile (\<lambda>c. c \<noteq> CHR ''?'') no_fragment
      in splitparams no_query)"

text \<open>\<open>_repo_parts\<close>: the owner and the name, or \<open>None\<close>.\<close>

definition repo_parts :: "string \<Rightarrow> (string \<times> string) option" where
  "repo_parts repo_url =
     (if \<not> prefix ''https://github.com/'' repo_url then None
      else
        let parts = str_split CHR ''/''
                      (str_replace ''.git'' '''' (str_strip CHR ''/'' (urlparse_path repo_url)))
        in if length parts < 2 then None
           else Some (parts ! 0, parts ! 1))"

text \<open>The name of the local directory, as \<open>get_stats\<close> derives it:
  \<open>repo_url.rstrip("/").split("/")[-1].replace(".git", "")\<close>. The split of any string has
  a last element.\<close>

definition repo_name :: "string \<Rightarrow> string" where
  "repo_name repo_url =
     str_replace ''.git'' '''' (last (str_split CHR ''/'' (str_rstrip CHR ''/'' repo_url)))"

text \<open>
  What the URL itself says, to compare the parsed parts with: the segments of its path
  between the slashes, and the piece of the whole URL behind its last slash once the
  slashes at its end are dropped. \<open>str_contains sub s\<close> is Python's \<open>sub in s\<close>.
\<close>

definition url_segments :: "string \<Rightarrow> string list" where
  "url_segments repo_url = str_split CHR ''/'' (str_strip CHR ''/'' (urlparse_path repo_url))"

definition url_last_piece :: "string \<Rightarrow> string" where
  "url_last_piece repo_url = last (str_split CHR ''/'' (str_rstrip CHR ''/'' repo_url))"

fun str_contains :: "string \<Rightarrow> string \<Rightarrow> bool" where
  "str_contains sub [] = (sub = [])"
| "str_contains sub (c # cs) = (prefix sub (c # cs) \<or> str_contains sub cs)"

section \<open>Working copies\<close>

text \<open>
  What the three measuring functions see of the local clone. A regular file is its size
  in bytes (\<open>st_size\<close>) and its text, as \<open>open("r", encoding="utf-8", errors="ignore")\<close>
  delivers it: the bytes that do not decode are already dropped. A dangling symbolic link
  is listed by \<open>os.walk\<close> among the files, \<open>is_file()\<close> is false for it and opening it
  raises \<open>FileNotFoundError\<close>. A symbolic link to a regular file behaves as that file
  and is not told apart; a symbolic link to a directory, which \<open>os.walk\<close> lists among the
  directories and does not enter, adds nothing to any count and is left out.

  \<open>exn\<close> lists the exceptions the program can meet. \<open>Unmodelled\<close> is no exception of
  Python's: it is the answer of this model where an input lies outside of what the model
  covers, and says nothing about what the program does there. \<open>OutOfFuel\<close> is none
  either: it is the answer of a bounded recursion whose bound is used up.
\<close>

datatype node = File nat string | Dangling | Dir "(string \<times> node) list"

datatype exn =
    AttributeError
  | FileNotFoundError
  | CalledProcessError
  | RequestException
  | JSONDecodeError
  | Unmodelled
  | OutOfFuel

fun is_dir :: "node \<Rightarrow> bool" where
  "is_dir (Dir es) = True"
| "is_dir _ = False"

fun is_file :: "node \<Rightarrow> bool" where
  "is_file (File sz txt) = True"
| "is_file _ = False"

fun st_size :: "node \<Rightarrow> int" where
  "st_size (File sz txt) = int sz"
| "st_size _ = 0"

fun open_text :: "node \<Rightarrow> exn + string" where
  "open_text (File sz txt) = Inr txt"
| "open_text _ = Inl FileNotFoundError"

text \<open>The text of a regular file.\<close>

fun file_text :: "node \<Rightarrow> string" where
  "file_text (File sz txt) = txt"
| "file_text n = []"

definition dir_entries :: "(string \<times> node) list \<Rightarrow> (string \<times> node) list" where
  "dir_entries es = filter (\<lambda>e. is_dir (snd e)) es"

definition file_entries :: "(string \<times> node) list \<Rightarrow> (string \<times> node) list" where
  "file_entries es = filter (\<lambda>e. \<not> is_dir (snd e)) es"

text \<open>\<open>if ".git" in dirs: dirs.remove(".git")\<close>: the first directory of that name leaves
  the list that \<open>os.walk\<close> goes on to visit.\<close>

fun remove_git :: "(string \<times> node) list \<Rightarrow> (string \<times> node) list" where
  "remove_git [] = []"
| "remove_git (e # es) = (if fst e = ''.git'' then es else e # remove_git es)"

lemma remove_git_subset: "set (remove_git es) \<subseteq> set es"
  by (induction es) auto

lemma entry_size: "(n, d) \<in> set es \<Longrightarrow> size d < size (Dir es)"
  by (induction es) auto

text \<open>
  \<open>os.walk(path)\<close>, top down, together with the pruning statement each of the three
  loops starts with: one element per directory visited, holding that directory's files
  (its entries that are not directories). A path that is no directory yields nothing.
\<close>

function walk :: "node \<Rightarrow> (string \<times> node) list list" where
  "walk (Dir es) =
     file_entries es # concat (map (\<lambda>e. walk (snd e)) (remove_git (dir_entries es)))"
| "walk (File sz txt) = []"
| "walk Dangling = []"
  by pat_completeness auto
termination
proof (relation "measure size")
  show "wf (measure size)" by simp
next
  fix es :: "(string \<times> node) list" and e
  assume "e \<in> set (remove_git (dir_entries es))"
  then have "e \<in> set es"
    using remove_git_subset [of "dir_entries es"] by (auto simp: dir_entries_def)
  then have "size (snd e) < size (Dir es)"
    using entry_size [of "fst e" "snd e" es] by simp
  then show "(snd e, Dir es) \<in> measure size" by simp
qed

text \<open>\<open>Path(f).suffix\<close> of a file name: from the last dot on, when that dot is neither
  the first nor the last character of the name; empty otherwise.\<close>

definition path_suffix :: "string \<Rightarrow> string" where
  "path_suffix name =
     (let ext = rev (takeWhile (\<lambda>c. c \<noteq> CHR ''.'') (rev name))
      in if CHR ''.'' \<in> set name \<and> ext \<noteq> [] \<and> length ext + 1 < length name
         then CHR ''.'' # ext else [])"

definition is_code :: "string set \<Rightarrow> string \<Rightarrow> bool" where
  "is_code code_exts f \<longleftrightarrow> str_lower (path_suffix f) \<in> code_exts"

text \<open>\<open>for _ in fh: count += 1\<close>: the number of lines of a text read with universal
  newlines, where a line ends at a line feed, at a carriage return, or at both in that
  order, and the last line may end with the file. The flag says whether characters were
  read since the last line end.\<close>

fun count_lines :: "bool \<Rightarrow> string \<Rightarrow> int" where
  "count_lines pending [] = (if pending then 1 else 0)"
| "count_lines pending (c # cs) =
     (if c = CHR 0x0A then 1 + count_lines False cs
      else if c = CHR 0x0D then
        (case cs of
           [] \<Rightarrow> 1
         | d # ds \<Rightarrow> if d = CHR 0x0A then 1 + count_lines False ds
                     else 1 + count_lines False cs)
      else count_lines True cs)"

text \<open>\<open>_repo_size_bytes\<close>\<close>

definition repo_size_bytes :: "node \<Rightarrow> int" where
  "repo_size_bytes path =
     fold (\<lambda>files total.
             fold (\<lambda>f total. if is_file (snd f) then total + st_size (snd f) else total)
               files total)
       (walk path) 0"

text \<open>\<open>_file_counts\<close>: the pair \<open>(total, code_files)\<close>.\<close>

definition file_counts :: "node \<Rightarrow> string set \<Rightarrow> int \<times> int" where
  "file_counts path code_exts =
     fold (\<lambda>files acc.
             fold (\<lambda>f (total, code_files).
                     (total + 1,
                      if is_code code_exts (fst f) then code_files + 1 else code_files))
               files acc)
       (walk path) (0, 0)"

text \<open>\<open>_lines_of_code\<close>: \<open>cnt\<close> is the counter \<open>count\<close> of the source; opening a file may raise,
  which ends both loops.\<close>

fun lines_of_files :: "string set \<Rightarrow> (string \<times> node) list \<Rightarrow> int \<Rightarrow> exn + int" where
  "lines_of_files code_exts [] cnt = Inr cnt"
| "lines_of_files code_exts (f # fs) cnt =
     (if is_code code_exts (fst f) then
        (case open_text (snd f) of
           Inl e \<Rightarrow> Inl e
         | Inr txt \<Rightarrow> lines_of_files code_exts fs (cnt + count_lines False txt))
      else lines_of_files code_exts fs cnt)"

fun lines_of_dirs :: "string set \<Rightarrow> (string \<times> node) list list \<Rightarrow> int \<Rightarrow> exn + int" where
  "lines_of_dirs code_exts [] cnt = Inr cnt"
| "lines_of_dirs code_exts (files # rest) cnt =
     (case lines_of_files code_exts files cnt of
        Inl e \<Rightarrow> Inl e
      | Inr cnt' \<Rightarrow> lines_of_dirs code_exts rest cnt')"

definition lines_of_code :: "node \<Rightarrow> string set \<Rightarrow> exn + int" where
  "lines_of_code path code_exts = lines_of_dirs code_exts (walk path) 0"

definition DEFAULT_CODE_EXTS :: "string set" where
  "DEFAULT_CODE_EXTS =
     {''.py'', ''.js'', ''.ts'', ''.go'', ''.rs'', ''.java'', ''.c'', ''.cpp'', ''.h'',
      ''.hpp'', ''.md'', ''.html'', ''.css'', ''.rb'', ''.php''}"

section \<open>Python values and JSON\<close>

text \<open>
  The values that travel between the hosting API, the cache files and the statistics:
  \<open>None\<close>, booleans, integers, strings, lists, and dictionaries with string keys in
  insertion order. \<open>JNull\<close> is Python's \<open>None\<close>. Floating-point numbers are not part of
  the model, and integers are unbounded: the limit that Python puts on the number of
  digits of an integer it writes or reads is left out.
\<close>

datatype json =
    JNull
  | JBool bool
  | JInt int
  | JStr string
  | JList "json list"
  | JObj "(string \<times> json) list"

text \<open>A Python dictionary holds each key once.\<close>

fun wf_json :: "json \<Rightarrow> bool" where
  "wf_json (JList xs) = list_all wf_json xs"
| "wf_json (JObj kvs) = (distinct (map fst kvs) \<and> list_all (\<lambda>kv. wf_json (snd kv)) kvs)"
| "wf_json v = True"

text \<open>Truth value, as \<open>if not x\<close> and \<open>x and y\<close> test it.\<close>

fun truthy :: "json \<Rightarrow> bool" where
  "truthy JNull = False"
| "truthy (JBool b) = b"
| "truthy (JInt i) = (i \<noteq> 0)"
| "truthy (JStr s) = (s \<noteq> [])"
| "truthy (JList xs) = (xs \<noteq> [])"
| "truthy (JObj kvs) = (kvs \<noteq> [])"

text \<open>\<open>x.get(key)\<close>: only a dictionary has the method; a missing key gives \<open>None\<close>.\<close>

fun py_get :: "json \<Rightarrow> string \<Rightarrow> exn + json" where
  "py_get (JObj kvs) key = Inr (case map_of kvs key of None \<Rightarrow> JNull | Some v \<Rightarrow> v)"
| "py_get v key = Inl AttributeError"

text \<open>\<open>d[key] = v\<close>: a key already there keeps its place.\<close>

fun dict_set :: "(string \<times> json) list \<Rightarrow> string \<Rightarrow> json \<Rightarrow> (string \<times> json) list" where
  "dict_set [] key v = [(key, v)]"
| "dict_set (kv # kvs) key v =
     (if fst kv = key then (key, v) # kvs else kv # dict_set kvs key v)"

text \<open>\<open>x == y\<close>: a boolean equals the integer 0 or 1, lists are compared element by
  element, dictionaries key by key whatever their order.\<close>

fun num_of :: "json \<Rightarrow> int option" where
  "num_of (JBool b) = Some (if b then 1 else 0)"
| "num_of (JInt i) = Some i"
| "num_of v = None"

fun py_eq :: "json \<Rightarrow> json \<Rightarrow> bool" where
  "py_eq JNull y = (y = JNull)"
| "py_eq (JBool b) y = (num_of y = Some (if b then 1 else 0))"
| "py_eq (JInt i) y = (num_of y = Some i)"
| "py_eq (JStr s) y = (y = JStr s)"
| "py_eq (JList xs) y =
     (case y of JList ys \<Rightarrow> list_all2 py_eq xs ys | _ \<Rightarrow> False)"
| "py_eq (JObj kvs) y =
     (case y of
        JObj kvs' \<Rightarrow>
          length kvs = length kvs' \<and>
          list_all (\<lambda>kv. case map_of kvs' (fst kv) of
                            None \<Rightarrow> False
                          | Some v' \<Rightarrow> py_eq (snd kv) v') kvs
      | _ \<Rightarrow> False)"

subsection \<open>\<open>json.dumps(v, ensure_ascii=False)\<close>\<close>

definition hex_char :: "nat \<Rightarrow> char" where
  "hex_char n = (if n < 10 then char_of (48 + n) else char_of (87 + n))"

text \<open>The quote, the backslash and the characters below 0x20 are escaped; every other
  character, also beyond ASCII, is written as it is.\<close>

definition escape_char :: "char \<Rightarrow> string" where
  "escape_char c =
     (if c = CHR 0x22 then [CHR 0x5C, CHR 0x22]
      else if c = CHR 0x5C then [CHR 0x5C, CHR 0x5C]
      else if c = CHR 0x0A then [CHR 0x5C, CHR ''n'']
      else if c = CHR 0x0D then [CHR 0x5C, CHR ''r'']
      else if c = CHR 0x09 then [CHR 0x5C, CHR ''t'']
      else if c = CHR 0x08 then [CHR 0x5C, CHR ''b'']
      else if c = CHR 0x0C then [CHR 0x5C, CHR ''f'']
      else if (of_char c :: nat) < 32 then
        [CHR 0x5C, CHR ''u'', CHR ''0'', CHR ''0'',
         hex_char (of_char c div 16), hex_char (of_char c mod 16)]
      else [c])"

definition dump_str :: "string \<Rightarrow> string" where
  "dump_str s = CHR 0x22 # concat (map escape_char s) @ [CHR 0x22]"

function digits_of :: "nat \<Rightarrow> string" where
  "digits_of n =
     (if n < 10 then [char_of (48 + n)]
      else digits_of (n div 10) @ [char_of (48 + n mod 10)])"
  by pat_completeness auto
termination
  by (relation "measure id") auto

declare digits_of.simps [simp del]

definition dump_int :: "int \<Rightarrow> string" where
  "dump_int i = (if i < 0 then CHR ''-'' # digits_of (nat (- i)) else digits_of (nat i))"

fun join :: "string \<Rightarrow> string list \<Rightarrow> string" where
  "join sep [] = []"
| "join sep [x] = x"
| "join sep (x # y # ys) = x @ sep @ join sep (y # ys)"

fun json_dumps :: "json \<Rightarrow> string" where
  "json_dumps JNull = ''null''"
| "json_dumps (JBool b) = (if b then ''true'' else ''false'')"
| "json_dumps (JInt i) = dump_int i"
| "json_dumps (JStr s) = dump_str s"
| "json_dumps (JList xs) = ''['' @ join '', '' (map json_dumps xs) @ '']''"
| "json_dumps (JObj kvs) =
     ''{'' @ join '', '' (map (\<lambda>kv. dump_str (fst kv) @ '': '' @ json_dumps (snd kv)) kvs)
       @ ''}''"

subsection \<open>\<open>json.loads(text)\<close>\<close>

text \<open>
  The decoder follows the library's scanner: \<open>scan_once\<close> reads one value,
  \<open>parse_array\<close> and \<open>parse_object\<close> are the loops over the elements of a list and the
  members of a dictionary, and white space is skipped where the library skips it. The
  calls are bounded by a counter that \<open>json_loads\<close> starts above twice the length of
  the text, which is enough for every text; a call that finds the counter at zero answers
  \<open>OutOfFuel\<close>. A number with a fraction or an exponent, \<open>NaN\<close>, \<open>Infinity\<close> and a
  \<open>\u\<close> escape beyond ASCII are \<open>Unmodelled\<close>.
\<close>

definition is_ws :: "char \<Rightarrow> bool" where
  "is_ws c \<longleftrightarrow> c = CHR '' '' \<or> c = CHR 0x09 \<or> c = CHR 0x0A \<or> c = CHR 0x0D"

definition skip_ws :: "string \<Rightarrow> string" where
  "skip_ws s = dropWhile is_ws s"

definition is_digit :: "char \<Rightarrow> bool" where
  "is_digit c \<longleftrightarrow> 48 \<le> (of_char c :: nat) \<and> (of_char c :: nat) \<le> 57"

definition nat_of_digits :: "string \<Rightarrow> nat" where
  "nat_of_digits ds = foldl (\<lambda>a c. 10 * a + (of_char c - 48)) 0 ds"

definition hex_val :: "char \<Rightarrow> nat option" where
  "hex_val c =
     (let n = of_char c :: nat
      in if 48 \<le> n \<and> n \<le> 57 then Some (n - 48)
         else if 97 \<le> n \<and> n \<le> 102 then Some (n - 87)
         else if 65 \<le> n \<and> n \<le> 70 then Some (n - 55)
         else None)"

text \<open>The character after a backslash.\<close>

definition unescape :: "char \<Rightarrow> char option" where
  "unescape e =
     (if e = CHR 0x22 then Some (CHR 0x22)
      else if e = CHR 0x5C then Some (CHR 0x5C)
      else if e = CHR ''/'' then Some (CHR ''/'')
      else if e = CHR ''b'' then Some (CHR 0x08)
      else if e = CHR ''f'' then Some (CHR 0x0C)
      else if e = CHR ''n'' then Some (CHR 0x0A)
      else if e = CHR ''r'' then Some (CHR 0x0D)
      else if e = CHR ''t'' then Some (CHR 0x09)
      else None)"

text \<open>The four hexadecimal digits after \<open>\u\<close>.\<close>

definition scan_u :: "string \<Rightarrow> exn + char" where
  "scan_u s =
     (case map hex_val (take 4 s) of
        [Some a, Some b, Some c, Some d] \<Rightarrow>
          (let n = ((a * 16 + b) * 16 + c) * 16 + d
           in if n < 128 then Inr (char_of n) else Inl Unmodelled)
      | _ \<Rightarrow> Inl JSONDecodeError)"

definition cons_result :: "char \<Rightarrow> exn + string \<times> string \<Rightarrow> exn + string \<times> string" where
  "cons_result c res = (case res of Inl e \<Rightarrow> Inl e | Inr (str, rest) \<Rightarrow> Inr (c # str, rest))"

text \<open>\<open>scanstring\<close>, from behind the opening quote: the string and the text behind its
  closing quote.\<close>

function scanstring :: "string \<Rightarrow> exn + string \<times> string" where
  "scanstring [] = Inl JSONDecodeError"
| "scanstring (c # cs) =
     (if c = CHR 0x22 then Inr ([], cs)
      else if c = CHR 0x5C then
        (case cs of
           [] \<Rightarrow> Inl JSONDecodeError
         | e # r \<Rightarrow>
             if e = CHR ''u'' then
               (case scan_u r of
                  Inl x \<Rightarrow> Inl x
                | Inr ch \<Rightarrow> cons_result ch (scanstring (drop 4 r)))
             else
               (case unescape e of
                  None \<Rightarrow> Inl JSONDecodeError
                | Some ch \<Rightarrow> cons_result ch (scanstring r)))
      else if (of_char c :: nat) < 32 then Inl JSONDecodeError
      else cons_result c (scanstring cs))"
  by pat_completeness auto
termination
  by (relation "measure length") auto

text \<open>Whether a fraction or an exponent follows the integer part of a number.\<close>

definition float_follows :: "string \<Rightarrow> bool" where
  "float_follows r =
     (case r of
        [] \<Rightarrow> False
      | c # cs \<Rightarrow>
          if c = CHR ''.'' then cs \<noteq> [] \<and> is_digit (hd cs)
          else if c = CHR ''e'' \<or> c = CHR ''E'' then
            (case cs of
               [] \<Rightarrow> False
             | d # ds \<Rightarrow>
                 if d = CHR ''+'' \<or> d = CHR ''-'' then ds \<noteq> [] \<and> is_digit (hd ds)
                 else is_digit d)
          else False)"

text \<open>The number at the head of the text, if there is one: an optional minus sign, then
  a single \<open>0\<close> or a run of digits.\<close>

definition match_number :: "string \<Rightarrow> (exn + int \<times> string) option" where
  "match_number s =
     (let neg = (s \<noteq> [] \<and> hd s = CHR ''-'');
          s0 = (if neg then tl s else s);
          ds = (if s0 \<noteq> [] \<and> hd s0 = CHR ''0'' then ''0'' else takeWhile is_digit s0);
          r = drop (length ds) s0
      in if ds = [] then None
         else if float_follows r then Some (Inl Unmodelled)
         else Some (Inr (if neg then - int (nat_of_digits ds) else int (nat_of_digits ds), r)))"

fun scan_once :: "nat \<Rightarrow> string \<Rightarrow> exn + json \<times> string"
  and parse_array :: "nat \<Rightarrow> string \<Rightarrow> json list \<Rightarrow> exn + json \<times> string"
  and parse_object :: "nat \<Rightarrow> string \<Rightarrow> (string \<times> json) list \<Rightarrow> exn + json \<times> string"
where
  "scan_once 0 s = Inl OutOfFuel"
| "scan_once (Suc n) s =
     (case s of
        [] \<Rightarrow> Inl JSONDecodeError
      | c # cs \<Rightarrow>
          if c = CHR 0x22 then
            (case scanstring cs of
               Inl e \<Rightarrow> Inl e
             | Inr (str, r) \<Rightarrow> Inr (JStr str, r))
          else if c = CHR ''{'' then
            (let r = skip_ws cs
             in if r \<noteq> [] \<and> hd r = CHR ''}'' then Inr (JObj [], tl r)
                else parse_object n r [])
          else if c = CHR ''['' then
            (let r = skip_ws cs
             in if r \<noteq> [] \<and> hd r = CHR '']'' then Inr (JList [], tl r)
                else parse_array n r [])
          else if prefix ''null'' s then Inr (JNull, drop 4 s)
          else if prefix ''true'' s then Inr (JBool True, drop 4 s)
          else if prefix ''false'' s then Inr (JBool False, drop 5 s)
          else
            (case match_number s of
               Some res \<Rightarrow>
                 (case res of Inl e \<Rightarrow> Inl e | Inr (i, r) \<Rightarrow> Inr (JInt i, r))
             | None \<Rightarrow>
                 if prefix ''NaN'' s \<or> prefix ''Infinity'' s \<or> prefix ''-Infinity'' s
                 then Inl Unmodelled
                 else Inl JSONDecodeError))"
| "parse_array 0 s acc = Inl OutOfFuel"
| "parse_array (Suc n) s acc =
     (case scan_once n s of
        Inl e \<Rightarrow> Inl e
      | Inr (v, r) \<Rightarrow>
          (case skip_ws r of
             [] \<Rightarrow> Inl JSONDecodeError
           | c # cs \<Rightarrow>
               if c = CHR '']'' then Inr (JList (acc @ [v]), cs)
               else if c = CHR '','' then parse_array n (skip_ws cs) (acc @ [v])
               else Inl JSONDecodeError))"
| "parse_object 0 s acc = Inl OutOfFuel"
| "parse_object (Suc n) s acc =
     (case s of
        [] \<Rightarrow> Inl JSONDecodeError
      | q # s1 \<Rightarrow>
          if q \<noteq> CHR 0x22 then Inl JSONDecodeError
          else
            (case scanstring s1 of
               Inl e \<Rightarrow> Inl e
             | Inr (key, r) \<Rightarrow>
                 (case skip_ws r of
                    [] \<Rightarrow> Inl JSONDecodeError
                  | colon # r1 \<Rightarrow>
                      if colon \<noteq> CHR '':'' then Inl JSONDecodeError
                      else
                        (case scan_once n (skip_ws r1) of
                           Inl e \<Rightarrow> Inl e
                         | Inr (v, r2) \<Rightarrow>
                             (case skip_ws r2 of
                                [] \<Rightarrow> Inl JSONDecodeError
                              | c # cs \<Rightarrow>
                                  if c = CHR ''}'' then Inr (JObj (dict_set acc key v), cs)
                                  else if c = CHR '','' then
                                    parse_object n (skip_ws cs) (dict_set acc key v)
                                  else Inl JSONDecodeError)))))"

definition json_loads :: "string \<Rightarrow> exn + json" where
  "json_loads text =
     (case scan_once (Suc (2 * length text)) (skip_ws text) of
        Inl e \<Rightarrow> Inl e
      | Inr (v, r) \<Rightarrow> if skip_ws r = [] then Inr v else Inl JSONDecodeError)"

text \<open>How a value begins in a text that \<open>json_dumps\<close> writes: with a character that is
  neither white space nor a closing bracket or brace. And what stands behind it: nothing,
  a comma, or the bracket or brace that closes the enclosing list or dictionary.\<close>

definition starts_value :: "string \<Rightarrow> bool" where
  "starts_value s \<longleftrightarrow>
     s \<noteq> [] \<and> \<not> is_ws (hd s) \<and> hd s \<noteq> CHR '']'' \<and> hd s \<noteq> CHR ''}''"

definition ends_value :: "string \<Rightarrow> bool" where
  "ends_value t \<longleftrightarrow>
     (case t of [] \<Rightarrow> True | c # cs \<Rightarrow> c = CHR '','' \<or> c = CHR '']'' \<or> c = CHR ''}'')"

section \<open>The statistics of a repository\<close>

text \<open>
  The labels of the statistics are Russian words; each is given here as the bytes of its
  UTF-8 encoding, in the order in which \<open>get_stats\<close> builds the dictionary.
\<close>

definition KEY_COMMIT :: string where \<comment> \<open>Kommit, the commit\<close>
  "KEY_COMMIT =
     [CHR 0xD0, CHR 0x9A, CHR 0xD0, CHR 0xBE, CHR 0xD0, CHR 0xBC, CHR 0xD0, CHR 0xBC,
      CHR 0xD0, CHR 0xB8, CHR 0xD1, CHR 0x82]"

definition KEY_REPO :: string where \<comment> \<open>Repozitorij, the repository\<close>
  "KEY_REPO =
     [CHR 0xD0, CHR 0xA0, CHR 0xD0, CHR 0xB5, CHR 0xD0, CHR 0xBF, CHR 0xD0, CHR 0xBE,
      CHR 0xD0, CHR 0xB7, CHR 0xD0, CHR 0xB8, CHR 0xD1, CHR 0x82, CHR 0xD0, CHR 0xBE,
      CHR 0xD1, CHR 0x80, CHR 0xD0, CHR 0xB8, CHR 0xD0, CHR 0xB9]"

definition KEY_TOTAL_FILES :: string where \<comment> \<open>Vsego fajlov, files in all\<close>
  "KEY_TOTAL_FILES =
     [CHR 0xD0, CHR 0x92, CHR 0xD1, CHR 0x81, CHR 0xD0, CHR 0xB5, CHR 0xD0, CHR 0xB3,
      CHR 0xD0, CHR 0xBE, CHR 0x20, CHR 0xD1, CHR 0x84, CHR 0xD0, CHR 0xB0, CHR 0xD0,
      CHR 0xB9, CHR 0xD0, CHR 0xBB, CHR 0xD0, CHR 0xBE, CHR 0xD0, CHR 0xB2]"

definition KEY_CODE_FILES :: string where \<comment> \<open>Fajlov s kodom, files with code\<close>
  "KEY_CODE_FILES =
     [CHR 0xD0, CHR 0xA4, CHR 0xD0, CHR 0xB0, CHR 0xD0, CHR 0xB9, CHR 0xD0, CHR 0xBB,
      CHR 0xD0, CHR 0xBE, CHR 0xD0, CHR 0xB2, CHR 0x20, CHR 0xD1, CHR 0x81, CHR 0x20,
      CHR 0xD0, CHR 0xBA, CHR 0xD0, CHR 0xBE, CHR 0xD0, CHR 0xB4, CHR 0xD0, CHR 0xBE,
      CHR 0xD0, CHR 0xBC]"

definition KEY_BYTES :: string where \<comment> \<open>Bajt, bytes\<close>
  "KEY_BYTES =
     [CHR 0xD0, CHR 0x91, CHR 0xD0, CHR 0xB0, CHR 0xD0, CHR 0xB9, CHR 0xD1, CHR 0x82]"

definition KEY_LINES :: string where \<comment> \<open>Strok koda, lines of code\<close>
  "KEY_LINES =
     [CHR 0xD0, CHR 0xA1, CHR 0xD1, CHR 0x82, CHR 0xD1, CHR 0x80, CHR 0xD0, CHR 0xBE,
      CHR 0xD0, CHR 0xBA, CHR 0x20, CHR 0xD0, CHR 0xBA, CHR 0xD0, CHR 0xBE, CHR 0xD0,
      CHR 0xB4, CHR 0xD0, CHR 0xB0]"

record Config =
  PORT :: int
  DEBUG :: bool
  REPO_FOLDER :: string
  REPO_CACHES :: string

definition config :: Config where
  "config = \<lparr>PORT = 5000, DEBUG = True, REPO_FOLDER = ''.repo'', REPO_CACHES = ''.repo_cache''\<rparr>"

text \<open>\<open>Path(d) / name\<close> for a name without a slash: an empty name and a single dot add
  nothing.\<close>

definition path_join :: "string \<Rightarrow> string \<Rightarrow> string" where
  "path_join d name = (if name = [] \<or> name = ''.'' then d else d @ ''/'' @ name)"

text \<open>
  The world around the program. \<open>http_get\<close> is what \<open>requests.get\<close> gives for a URL (an
  exception, or a response with its status and what \<open>resp.json()\<close> makes of its body);
  \<open>git_clone\<close>, \<open>git_fetch\<close> and \<open>git_rev_parse\<close> are what the three \<open>git\<close> commands do
  (a non-zero exit raises \<open>CalledProcessError\<close>; otherwise the working copy they leave,
  and for \<open>rev-parse\<close> the decoded output). \<open>repos\<close> maps a local path to the working
  copy stored there and \<open>caches\<close> maps the path of a cache file to its text; the two
  directories are kept as separate stores, a store takes every write, and a text is read
  as it was written (Python translates line ends when it reads and writes a text file;
  the texts that the program writes hold none). \<open>log\<close> records, in order, the requests,
  the \<open>git\<close> commands and the cache writes performed.
\<close>

record response =
  status_code :: int
  json_body :: "exn + json"

datatype event =
    HttpGet string
  | GitClone string string
  | GitFetch string
  | GitRevParse string
  | CacheWrite string

record world =
  http_get :: "string \<Rightarrow> exn + response"
  git_clone :: "string \<Rightarrow> exn + node"
  git_fetch :: "string \<Rightarrow> node \<Rightarrow> exn + node"
  git_rev_parse :: "string \<Rightarrow> exn + string"
  repos :: "string \<rightharpoonup> node"
  caches :: "string \<rightharpoonup> string"
  log :: "event list"

text \<open>\<open>_get_remote_commit\<close>\<close>

definition get_remote_commit :: "world \<Rightarrow> string \<Rightarrow> (exn + json) \<times> world" where
  "get_remote_commit w repo_url =
     (case repo_parts repo_url of
        None \<Rightarrow> (Inr JNull, w)
      | Some (owner, name) \<Rightarrow>
          (let url = ''https://api.github.com/repos/'' @ owner @ ''/'' @ name @ ''/commits'';
               w' = w\<lparr>log := log w @ [HttpGet url]\<rparr>
           in case http_get w url of
                Inl e \<Rightarrow> (Inl e, w')
              | Inr resp \<Rightarrow>
                  if status_code resp \<noteq> 200 then (Inr JNull, w')
                  else
                    (case json_body resp of
                       Inl e \<Rightarrow> (Inl e, w')
                     | Inr data \<Rightarrow>
                         (case data of
                            JList (x # xs) \<Rightarrow> (py_get x ''sha'', w')
                          | _ \<Rightarrow> (Inr JNull, w')))))"

text \<open>\<open>_clone_or_fetch\<close>\<close>

definition clone_or_fetch :: "world \<Rightarrow> string \<Rightarrow> string \<Rightarrow> (exn + unit) \<times> world" where
  "clone_or_fetch w repo_url local_path =
     (case repos w local_path of
        None \<Rightarrow>
          (let w' = w\<lparr>log := log w @ [GitClone repo_url local_path]\<rparr>
           in case git_clone w repo_url of
                Inl e \<Rightarrow> (Inl e, w')
              | Inr tree \<Rightarrow> (Inr (), w'\<lparr>repos := (repos w')(local_path \<mapsto> tree)\<rparr>))
      | Some old \<Rightarrow>
          (let w' = w\<lparr>log := log w @ [GitFetch local_path]\<rparr>
           in case git_fetch w local_path old of
                Inl e \<Rightarrow> (Inl e, w')
              | Inr tree \<Rightarrow> (Inr (), w'\<lparr>repos := (repos w')(local_path \<mapsto> tree)\<rparr>)))"

text \<open>\<open>_local_commit\<close>: the output of \<open>git rev-parse HEAD\<close> without the white space
  around it.\<close>

definition is_space :: "char \<Rightarrow> bool" where
  "is_space c \<longleftrightarrow>
     (let n = of_char c :: nat in (9 \<le> n \<and> n \<le> 13) \<or> (28 \<le> n \<and> n \<le> 32))"

definition local_commit :: "world \<Rightarrow> string \<Rightarrow> (exn + string) \<times> world" where
  "local_commit w local_path =
     (let w' = w\<lparr>log := log w @ [GitRevParse local_path]\<rparr>
      in case git_rev_parse w local_path of
           Inl e \<Rightarrow> (Inl e, w')
         | Inr out \<Rightarrow> (Inr (rev (dropWhile is_space (rev (dropWhile is_space out)))), w'))"

text \<open>The working copy at a path; a path that does not exist is walked like any path
  that is no directory.\<close>

definition working_copy :: "world \<Rightarrow> string \<Rightarrow> node" where
  "working_copy w local_path = (case repos w local_path of None \<Rightarrow> Dangling | Some t \<Rightarrow> t)"

text \<open>\<open>_cache_path_for\<close>, \<open>_load_cached_stats\<close> and \<open>_save_cached_stats\<close>\<close>

definition cache_path_for :: "string \<Rightarrow> string \<Rightarrow> string" where
  "cache_path_for repo_url cache_dir =
     path_join cache_dir
       (str_replace '':'' ''_'' (str_replace ''/'' ''_'' repo_url) @ ''.json'')"

definition load_cached_stats :: "world \<Rightarrow> string \<Rightarrow> string \<Rightarrow> exn + json" where
  "load_cached_stats w repo_url cache_dir =
     (case caches w (cache_path_for repo_url cache_dir) of
        None \<Rightarrow> Inr JNull
      | Some text \<Rightarrow> json_loads text)"

definition save_cached_stats :: "world \<Rightarrow> string \<Rightarrow> string \<Rightarrow> json \<Rightarrow> world" where
  "save_cached_stats w repo_url cache_dir stats =
     (let p = cache_path_for repo_url cache_dir
      in w\<lparr>caches := (caches w)(p \<mapsto> json_dumps stats), log := log w @ [CacheWrite p]\<rparr>)"

text \<open>The test \<open>cached and cached.get("commit") == remote_sha\<close> of \<open>get_stats\<close>.\<close>

definition cache_valid :: "json \<Rightarrow> json \<Rightarrow> exn + bool" where
  "cache_valid cached remote_sha =
     (if \<not> truthy cached then Inr False
      else case py_get cached ''commit'' of
             Inl e \<Rightarrow> Inl e
           | Inr c \<Rightarrow> Inr (py_eq c remote_sha))"

text \<open>\<open>get_stats\<close>: the statistics, or \<open>None\<close>.\<close>

definition get_stats ::
  "world \<Rightarrow> string \<Rightarrow> Config \<Rightarrow> string set option \<Rightarrow> (exn + json) \<times> world" where
  "get_stats w repo_url cfg code_exts_arg =
     (let code_exts = (case code_exts_arg of
                         None \<Rightarrow> DEFAULT_CODE_EXTS
                       | Some exts \<Rightarrow> if exts = {} then DEFAULT_CODE_EXTS else exts)
      in case repo_parts repo_url of
           None \<Rightarrow> (Inr JNull, w)
         | Some parts \<Rightarrow>
             (let local_path = path_join (REPO_FOLDER cfg) (repo_name repo_url)
              in case get_remote_commit w repo_url of
                   (Inl e, w1) \<Rightarrow> (Inl e, w1)
                 | (Inr remote_sha, w1) \<Rightarrow>
                     if remote_sha = JNull then (Inr JNull, w1)
                     else
                       (case load_cached_stats w1 repo_url (REPO_CACHES cfg) of
                          Inl e \<Rightarrow> (Inl e, w1)
                        | Inr cached \<Rightarrow>
                            (case cache_valid cached remote_sha of
                               Inl e \<Rightarrow> (Inl e, w1)
                             | Inr hit \<Rightarrow>
                                 if hit then (Inr cached, w1)
                                 else
                                   (case clone_or_fetch w1 repo_url local_path of
                                      (Inl e, w2) \<Rightarrow> (Inl e, w2)
                                    | (Inr u, w2) \<Rightarrow>
                                        (case local_commit w2 local_path of
                                           (Inl e, w3) \<Rightarrow> (Inl e, w3)
                                         | (Inr local_sha, w3) \<Rightarrow>
                                             (let (total_files, code_files) =
                                                    file_counts (working_copy w3 local_path) code_exts
                                              in case lines_of_code (working_copy w3 local_path) code_exts of
                                                   Inl e \<Rightarrow> (Inl e, w3)
                                                 | Inr total_lines \<Rightarrow>
                                                     (let size_bytes = repo_size_bytes (working_copy w3 local_path);
                                                          stats = JObj
                                                            [(KEY_COMMIT, remote_sha),
                                                             (KEY_REPO, JStr repo_url),
                                                             (KEY_TOTAL_FILES, JInt total_files),
                                                             (KEY_CODE_FILES, JInt code_files),
                                                             (KEY_BYTES, JInt size_bytes),
                                                             (KEY_LINES, JInt total_lines)]
                                                      in (Inr stats,
                                                          save_cached_stats w3 repo_url
                                                            (REPO_CACHES cfg) stats)))))))))"

section \<open>The HTTP endpoint\<close>

text \<open>The two error messages are Russian sentences, given as the bytes of their UTF-8
  encoding.\<close>

definition MSG_NO_REPO :: string where \<comment> \<open>no repository is given\<close>
  "MSG_NO_REPO =
     [CHR 0xD0, CHR 0x9D, CHR 0xD0, CHR 0xB5, CHR 0x20, CHR 0xD1, CHR 0x83, CHR 0xD0,
      CHR 0xBA, CHR 0xD0, CHR 0xB0, CHR 0xD0, CHR 0xB7, CHR 0xD0, CHR 0xB0, CHR 0xD0,
      CHR 0xBD, CHR 0x20, CHR 0xD1, CHR 0x80, CHR 0xD0, CHR 0xB5, CHR 0xD0, CHR 0xBF,
      CHR 0xD0, CHR 0xBE, CHR 0xD0, CHR 0xB7, CHR 0xD0, CHR 0xB8, CHR 0xD1, CHR 0x82,
      CHR 0xD0, CHR 0xBE, CHR 0xD1, CHR 0x80, CHR 0xD0, CHR 0xB8, CHR 0xD0, CHR 0xB9]"

definition MSG_NO_STATS :: string where \<comment> \<open>the statistics could not be gathered\<close>
  "MSG_NO_STATS =
     [CHR 0xD0, CHR 0x9D, CHR 0xD0, CHR 0xB5, CHR 0x20, CHR 0xD1, CHR 0x83, CHR 0xD0,
      CHR 0xB4, CHR 0xD0, CHR 0xB0, CHR 0xD0, CHR 0xBB, CHR 0xD0, CHR 0xBE, CHR 0xD1,
      CHR 0x81, CHR 0xD1, CHR 0x8C, CHR 0x20, CHR 0xD1, CHR 0x81, CHR 0xD0, CHR 0xBE,
      CHR 0xD0, CHR 0xB1, CHR 0xD1, CHR 0x80, CHR 0xD0, CHR 0xB0, CHR 0xD1, CHR 0x82,
      CHR 0xD1, CHR 0x8C, CHR 0x20, CHR 0xD1, CHR 0x81, CHR 0xD1, CHR 0x82, CHR 0xD0,
      CHR 0xB0, CHR 0xD1, CHR 0x82, CHR 0xD0, CHR 0xB8, CHR 0xD1, CHR 0x81, CHR 0xD1,
      CHR 0x82, CHR 0xD0, CHR 0xB8, CHR 0xD0, CHR 0xBA, CHR 0xD1, CHR 0x83]"

datatype payload = Json json | Bytes string

record http_response =
  status :: nat
  headers :: "(string \<times> string) list"
  payload :: payload

text \<open>\<open>jsonify(v), code\<close>\<close>

definition jsonify :: "json \<Rightarrow> nat \<Rightarrow> http_response" where
  "jsonify v code =
     \<lparr>status = code, headers = [(''Content-Type'', ''application/json'')], payload = Json v\<rparr>"

text \<open>
  \<open>get_stats_image\<close>, the handler of \<open>GET /repo\<close>. Its first argument is the value of the
  query parameter \<open>repo\<close>, if the request has one. The drawing of the image and the MD5
  digest belong to libraries and are parameters: \<open>render_image\<close> gives the bytes of the
  picture, \<open>md5_hex\<close> the hexadecimal digest of a string. The handler also prints the
  statistics, which the model leaves out.
\<close>

definition get_stats_image ::
  "(json \<Rightarrow> string) \<Rightarrow> (string \<Rightarrow> string) \<Rightarrow> world \<Rightarrow> string option
     \<Rightarrow> (exn + http_response) \<times> world" where
  "get_stats_image render_image md5_hex w repo_arg =
     (case repo_arg of
        None \<Rightarrow> (Inr (jsonify (JObj [(''error'', JStr MSG_NO_REPO)]) 400), w)
      | Some repo \<Rightarrow>
          if repo = [] then (Inr (jsonify (JObj [(''error'', JStr MSG_NO_REPO)]) 400), w)
          else
            (case get_stats w repo config None of
               (Inl e, w') \<Rightarrow> (Inl e, w')
             | (Inr stats, w') \<Rightarrow>
                 if \<not> truthy stats then
                   (Inr (jsonify (JObj [(''error'', JStr MSG_NO_STATS)]) 500), w')
                 else
                   (Inr \<lparr>status = 200,
                         headers =
                           [(''Content-Type'', ''image/png''),
                            (''Content-Disposition'',
                             ''inline; filename=stats_'' @ take 8 (md5_hex repo) @ ''.png'')],
                         payload = Bytes (render_image stats)\<rparr>,
                    w')))"

section \<open>An example world\<close>

text \<open>
  A working copy with \<open>a.py\<close> (three lines), \<open>b.txt\<close> (five lines) and a \<open>.git\<close>
  directory, and a world in which the hosting API answers every request with the commit
  \<open>abc123\<close>, \<open>git clone\<close> delivers that working copy, \<open>git fetch\<close> leaves a working copy
  as it is and \<open>git rev-parse\<close> prints another commit id. Nothing is cloned or cached
  yet.
\<close>

definition example_tree :: node where
  "example_tree =
     Dir [(''a.py'', File 17 (''import os'' @ [CHR 0x0A] @ ''x = 1'' @ [CHR 0x0A] @ [CHR 0x0A])),
          (''b.txt'', File 10 (''1'' @ [CHR 0x0A] @ ''2'' @ [CHR 0x0A] @ ''3'' @ [CHR 0x0A]
                                @ ''4'' @ [CHR 0x0A] @ ''5'' @ [CHR 0x0A])),
          (''.git'', Dir [(''HEAD'', File 21 (''ref: refs/heads/main'' @ [CHR 0x0A])),
                          (''hooks'', Dir [(''pre-commit.py'', File 6 (''pass'' @ [CHR 0x0A] @ [CHR 0x0A]))])])]"

definition example_world :: world where
  "example_world =
     \<lparr>http_get = (\<lambda>url. Inr \<lparr>status_code = 200,
                               json_body = Inr (JList [JObj [(''sha'', JStr ''abc123'')]])\<rparr>),
      git_clone = (\<lambda>url. Inr example_tree),
      git_fetch = (\<lambda>local_path tree. Inr tree),
      git_rev_parse = (\<lambda>local_path. Inr (''0fedcb'' @ [CHR 0x0A])),
      repos = Map.empty,
      caches = Map.empty,
      log = []\<rparr>"

text \<open>
  The URL of a repository, the statistics that the first request for it computes in the
  example world, and the world after that request: the working copy is cloned, the
  statistics are cached, and four effects are logged.
\<close>

definition example_url :: string where
  "example_url = ''https://github.com/o/r.git''"

definition example_stats :: json where
  "example_stats =
     JObj [(KEY_COMMIT, JStr ''abc123''),
           (KEY_REPO, JStr example_url),
           (KEY_TOTAL_FILES, JInt 2),
           (KEY_CODE_FILES, JInt 1),
           (KEY_BYTES, JInt 27),
           (KEY_LINES, JInt 3)]"

definition example_cache_path :: string where
  "example_cache_path = ''.repo_cache/https___github.com_o_r.git.json''"

definition example_world_after :: world where
  "example_world_after =
     example_world
       \<lparr>repos := [''.repo/r'' \<mapsto> example_tree],
        caches := [example_cache_path \<mapsto> json_dumps example_stats],
        log := [HttpGet ''https://api.github.com/repos/o/r/commits'',
                GitClone example_url ''.repo/r'',
                GitRevParse ''.repo/r'',
                CacheWrite example_cache_path]\<rparr>"

section \<open>Properties of the URL parsing\<close>

lemma str_split_not_Nil: "str_split sep s \<noteq> []"
  by (induction s) (auto split: list.splits)

lemma hd_str_split: "hd (str_split sep s) = takeWhile (\<lambda>c. c \<noteq> sep) s"
  using str_split_not_Nil [of sep]
  by (induction s) (auto split: list.splits)

lemma prefix_takeWhile:
  "\<forall>c \<in> set p. P c \<Longrightarrow> prefix p (takeWhile P s) \<longleftrightarrow> prefix p s"
proof (induction p arbitrary: s)
  case Nil
  then show ?case by simp
next
  case (Cons a p)
  then show ?case by (cases s) auto
qed

lemma del_git_Nil: "str_replace ''.git'' '''' [] = []"
  by (simp add: str_replace.simps)

lemma del_git_hit:
  "str_replace ''.git'' '''' (''.git'' @ r) = str_replace ''.git'' '''' r"
  by (subst str_replace.simps) simp

lemma del_git_miss:
  assumes "\<not> prefix ''.git'' (c # cs)"
  shows "str_replace ''.git'' '''' (c # cs) = c # str_replace ''.git'' '''' cs"
  by (subst str_replace.simps, simp only: assms if_False, simp)

lemma del_git_cases:
  obtains (nil) "s = []"
  | (hit) r where "s = ''.git'' @ r"
  | (miss) c cs where "s = c # cs" "\<not> prefix ''.git'' (c # cs)"
  by (cases s) (auto simp: prefix_def)

lemma del_git_length_le: "length (str_replace ''.git'' '''' s) \<le> length s"
proof (induction s rule: length_induct)
  case (1 s)
  show ?case
  proof (cases s rule: del_git_cases)
    case nil
    then show ?thesis by (simp add: del_git_Nil)
  next
    case (hit r)
    with 1 have "length (str_replace ''.git'' '''' r) \<le> length r" by simp
    with hit show ?thesis by (simp only: del_git_hit) simp
  next
    case (miss c cs)
    with 1 have "length (str_replace ''.git'' '''' cs) \<le> length cs" by simp
    with miss show ?thesis by (simp add: del_git_miss)
  qed
qed

lemma del_git_shorter:
  "str_contains ''.git'' s \<Longrightarrow> length (str_replace ''.git'' '''' s) < length s"
proof (induction s rule: length_induct)
  case (1 s)
  show ?case
  proof (cases s rule: del_git_cases)
    case nil
    with 1 show ?thesis by simp
  next
    case (hit r)
    have "length (str_replace ''.git'' '''' r) \<le> length r" by (rule del_git_length_le)
    with hit show ?thesis by (simp only: del_git_hit) simp
  next
    case (miss c cs)
    with 1 have "str_contains ''.git'' cs" by auto
    with 1 miss have "length (str_replace ''.git'' '''' cs) < length cs" by simp
    with miss show ?thesis by (simp add: del_git_miss)
  qed
qed

lemma str_split_del_git:
  "str_split CHR ''/'' (str_replace ''.git'' '''' s) =
   map (str_replace ''.git'' '''') (str_split CHR ''/'' s)"
proof (induction s rule: length_induct)
  case (1 s)
  show ?case
  proof (cases s rule: del_git_cases)
    case nil
    then show ?thesis by (simp add: del_git_Nil)
  next
    case (hit r)
    with 1 have IH: "str_split CHR ''/'' (str_replace ''.git'' '''' r) =
        map (str_replace ''.git'' '''') (str_split CHR ''/'' r)" by simp
    obtain w ws where r: "str_split CHR ''/'' r = w # ws"
      using str_split_not_Nil [of "CHR ''/''" r] by (cases "str_split CHR ''/'' r") auto
    have "str_split CHR ''/'' (''.git'' @ r) = (''.git'' @ w) # ws"
      using r by simp
    then show ?thesis using hit IH r by (simp only: del_git_hit list.map) 
  next
    case (miss c cs)
    with 1 have IH: "str_split CHR ''/'' (str_replace ''.git'' '''' cs) =
        map (str_replace ''.git'' '''') (str_split CHR ''/'' cs)" by simp
    obtain w ws where r: "str_split CHR ''/'' cs = w # ws"
      using str_split_not_Nil [of "CHR ''/''" cs] by (cases "str_split CHR ''/'' cs") auto
    show ?thesis
    proof (cases "c = CHR ''/''")
      case True
      then show ?thesis using miss IH by (simp add: del_git_miss del_git_Nil)
    next
      case False
      have w: "w = takeWhile (\<lambda>c. c \<noteq> CHR ''/'') cs"
        using hd_str_split [of "CHR ''/''" cs] r by simp
      have "prefix ''.git'' (c # w) \<longleftrightarrow> prefix ''.git'' (takeWhile (\<lambda>c. c \<noteq> CHR ''/'') (c # cs))"
        using False w by simp
      also have "\<dots> \<longleftrightarrow> prefix ''.git'' (c # cs)"
        by (rule prefix_takeWhile) simp
      finally have "\<not> prefix ''.git'' (c # w)" using miss by simp
      then have "str_replace ''.git'' '''' (c # w) = c # str_replace ''.git'' '''' w"
        by (rule del_git_miss)
      then show ?thesis using miss IH r False by (simp add: del_git_miss)
    qed
  qed
qed

lemma nth_map_first_two:
  assumes "2 \<le> length xs"
  shows "map f xs ! 0 = f (xs ! 0)" and "map f xs ! 1 = f (xs ! 1)"
proof -
  obtain a b ys where "xs = a # b # ys"
    using assms by (cases xs; cases "tl xs") auto
  then show "map f xs ! 0 = f (xs ! 0)" and "map f xs ! 1 = f (xs ! 1)"
    by simp_all
qed

lemma repo_parts_segments:
  "repo_parts repo_url =
     (if prefix ''https://github.com/'' repo_url \<and> 2 \<le> length (url_segments repo_url)
      then Some (str_replace ''.git'' '''' (url_segments repo_url ! 0),
                 str_replace ''.git'' '''' (url_segments repo_url ! 1))
      else None)"
  by (auto simp add: repo_parts_def url_segments_def str_split_del_git Let_def nth_map_first_two)

text \<open>
  C4. A URL that does not start with \<open>https://github.com/\<close>, or whose path has fewer than
  two segments, makes \<open>get_stats\<close> return \<open>None\<close> and leaves the world as it was: no
  request is sent, no \<open>git\<close> command is run, nothing is written.
\<close>

theorem unsupported_url_returns_none_untouched:
  assumes "\<not> prefix ''https://github.com/'' repo_url \<or> length (url_segments repo_url) < 2"
  shows "get_stats w repo_url cfg code_exts_arg = (Inr JNull, w)"
proof -
  have "repo_parts repo_url = None"
    using assms by (auto simp: repo_parts_segments)
  then show ?thesis
    by (simp add: get_stats_def)
qed

theorem unsupported_url_witness:
  "\<not> prefix ''https://github.com/'' ''https://gitlab.com/o/r''
   \<and> get_stats example_world ''https://gitlab.com/o/r'' config None
       = (Inr JNull, example_world)"
proof -
  have h: "\<not> prefix ''https://github.com/'' ''https://gitlab.com/o/r''"
    by simp
  then have "\<not> prefix ''https://github.com/'' ''https://gitlab.com/o/r''
      \<or> length (url_segments ''https://gitlab.com/o/r'') < 2"
    by blast
  from unsupported_url_returns_none_untouched [OF this] h show ?thesis
    by blast
qed

text \<open>
  C10, as the claim states it, fails: the owner of \<open>https://github.com/my.github/repo\<close>
  contains \<open>.git\<close> and is parsed as \<open>myhub\<close>, yet the name of the local directory is
  \<open>repo\<close>, which is the second segment of the path unchanged.
\<close>

theorem git_in_owner_keeps_directory_name:
  "str_contains ''.git'' (url_segments ''https://github.com/my.github/repo'' ! 0)
   \<and> repo_parts ''https://github.com/my.github/repo'' = Some (''myhub'', ''repo'')
   \<and> repo_name ''https://github.com/my.github/repo''
       = url_segments ''https://github.com/my.github/repo'' ! 1"
  by code_simp

text \<open>
  C10, amended. For a URL that starts with \<open>https://github.com/\<close> and whose path has at
  least two segments, the parsed owner and name are the first two segments with every
  \<open>.git\<close> taken out, wherever it stands; so the parsed pair differs from the two segments
  as soon as one of them contains \<open>.git\<close>. The name of the local directory is the last
  piece of the URL with every \<open>.git\<close> taken out, and differs from that piece as soon as
  the piece contains \<open>.git\<close>.
\<close>

theorem git_removed_everywhere:
  assumes "prefix ''https://github.com/'' repo_url"
    and "2 \<le> length (url_segments repo_url)"
  shows "repo_parts repo_url =
           Some (str_replace ''.git'' '''' (url_segments repo_url ! 0),
                 str_replace ''.git'' '''' (url_segments repo_url ! 1))
       \<and> (str_contains ''.git'' (url_segments repo_url ! 0)
             \<or> str_contains ''.git'' (url_segments repo_url ! 1)
           \<longrightarrow> repo_parts repo_url
                 \<noteq> Some (url_segments repo_url ! 0, url_segments repo_url ! 1))
       \<and> repo_name repo_url = str_replace ''.git'' '''' (url_last_piece repo_url)
       \<and> (str_contains ''.git'' (url_last_piece repo_url)
           \<longrightarrow> repo_name repo_url \<noteq> url_last_piece repo_url)"
proof -
  have parts: "repo_parts repo_url =
           Some (str_replace ''.git'' '''' (url_segments repo_url ! 0),
                 str_replace ''.git'' '''' (url_segments repo_url ! 1))"
    using assms by (simp add: repo_parts_segments)
  have differ: "str_contains ''.git'' (url_segments repo_url ! 0)
           \<or> str_contains ''.git'' (url_segments repo_url ! 1)
         \<longrightarrow> repo_parts repo_url
               \<noteq> Some (url_segments repo_url ! 0, url_segments repo_url ! 1)"
    using del_git_shorter [of "url_segments repo_url ! 0"]
      del_git_shorter [of "url_segments repo_url ! 1"]
    by (auto simp: parts)
  have name: "repo_name repo_url = str_replace ''.git'' '''' (url_last_piece repo_url)"
    by (simp add: repo_name_def url_last_piece_def)
  have "str_contains ''.git'' (url_last_piece repo_url)
         \<longrightarrow> repo_name repo_url \<noteq> url_last_piece repo_url"
    using del_git_shorter [of "url_last_piece repo_url"]
    by (auto simp: name)
  with parts differ name show ?thesis by blast
qed

theorem git_removed_everywhere_witness:
  "prefix ''https://github.com/'' ''https://github.com/my.github/x.gity.git''
   \<and> 2 \<le> length (url_segments ''https://github.com/my.github/x.gity.git'')
   \<and> url_segments ''https://github.com/my.github/x.gity.git'' = [''my.github'', ''x.gity.git'']
   \<and> repo_parts ''https://github.com/my.github/x.gity.git'' = Some (''myhub'', ''xy'')
   \<and> repo_parts ''https://github.com/my.github/x.gity.git''
       \<noteq> Some (url_segments ''https://github.com/my.github/x.gity.git'' ! 0,
                 url_segments ''https://github.com/my.github/x.gity.git'' ! 1)
   \<and> repo_name ''https://github.com/my.github/x.gity.git'' = ''xy''
   \<and> repo_name ''https://github.com/my.github/x.gity.git''
       \<noteq> url_last_piece ''https://github.com/my.github/x.gity.git''"
proof -
  have h1: "prefix ''https://github.com/'' ''https://github.com/my.github/x.gity.git''"
    by simp
  have segs: "url_segments ''https://github.com/my.github/x.gity.git''
                = [''my.github'', ''x.gity.git'']"
    by code_simp
  have h2: "2 \<le> length (url_segments ''https://github.com/my.github/x.gity.git'')"
    by (simp add: segs)
  have piece: "url_last_piece ''https://github.com/my.github/x.gity.git'' = ''x.gity.git''"
    by code_simp
  have c1: "str_contains ''.git'' ''my.github''" by simp
  have c2: "str_contains ''.git'' ''x.gity.git''" by simp
  have r1: "str_replace ''.git'' '''' ''my.github'' = ''myhub''" by code_simp
  have r2: "str_replace ''.git'' '''' ''x.gity.git'' = ''xy''" by code_simp
  show ?thesis
    using git_removed_everywhere [OF h1 h2] h1 h2 c1 c2
    by (simp add: segs piece r1 r2)
qed

section \<open>Properties of the measuring functions\<close>

text \<open>The three loops, as counts and sums over the files that the walk visits.\<close>

lemma count_files_fold:
  "fold (\<lambda>f (total, code_files).
           (total + 1, if is_code code_exts (fst f) then code_files + 1 else code_files))
     files (a, b)
   = (a + int (length files),
      b + int (length (filter (\<lambda>f. is_code code_exts (fst f)) files)))"
  by (induction files arbitrary: a b) auto

lemma count_dirs_fold:
  "fold (\<lambda>files acc.
           fold (\<lambda>f (total, code_files).
                   (total + 1, if is_code code_exts (fst f) then code_files + 1 else code_files))
             files acc)
     dirs (a, b)
   = (a + int (length (concat dirs)),
      b + int (length (filter (\<lambda>f. is_code code_exts (fst f)) (concat dirs))))"
  by (induction dirs arbitrary: a b) (auto simp: count_files_fold)

lemma file_counts_eq:
  "file_counts path code_exts =
     (int (length (concat (walk path))),
      int (length (filter (\<lambda>f. is_code code_exts (fst f)) (concat (walk path)))))"
  by (simp add: file_counts_def count_dirs_fold)

lemma size_files_fold:
  "fold (\<lambda>f total. if is_file (snd f) then total + st_size (snd f) else total) files a
   = a + sum_list (map (\<lambda>f. st_size (snd f)) (filter (\<lambda>f. is_file (snd f)) files))"
  by (induction files arbitrary: a) auto

lemma size_dirs_fold:
  "fold (\<lambda>files total.
           fold (\<lambda>f total. if is_file (snd f) then total + st_size (snd f) else total)
             files total)
     dirs a
   = a + sum_list (map (\<lambda>f. st_size (snd f)) (filter (\<lambda>f. is_file (snd f)) (concat dirs)))"
  by (induction dirs arbitrary: a) (auto simp: size_files_fold)

lemma repo_size_bytes_eq:
  "repo_size_bytes path =
     sum_list (map (\<lambda>f. st_size (snd f)) (filter (\<lambda>f. is_file (snd f)) (concat (walk path))))"
  by (simp add: repo_size_bytes_def size_dirs_fold)

lemma st_size_nonneg: "0 \<le> st_size n"
  by (cases n) auto

lemma repo_size_bytes_nonneg: "0 \<le> repo_size_bytes path"
  unfolding repo_size_bytes_eq
  by (rule sum_list_nonneg) (auto simp: st_size_nonneg)

lemma open_text_file: "is_file n \<Longrightarrow> open_text n = Inr (file_text n)"
  by (cases n) auto

lemma open_text_other: "\<not> is_file n \<Longrightarrow> open_text n = Inl FileNotFoundError"
  by (cases n) auto

lemma lines_of_files_eq:
  "lines_of_files code_exts files cnt =
     (if list_all (\<lambda>f. is_file (snd f)) (filter (\<lambda>f. is_code code_exts (fst f)) files)
      then Inr (cnt + sum_list (map (\<lambda>f. count_lines False (file_text (snd f)))
                                   (filter (\<lambda>f. is_code code_exts (fst f)) files)))
      else Inl FileNotFoundError)"
proof (induction files arbitrary: cnt)
  case Nil
  then show ?case by simp
next
  case (Cons f files)
  show ?case
  proof (cases "is_file (snd f)")
    case True
    then show ?thesis
      by (simp add: Cons.IH open_text_file)
  next
    case False
    then show ?thesis
      by (simp add: Cons.IH open_text_other)
  qed
qed

lemma lines_of_dirs_eq:
  "lines_of_dirs code_exts dirs cnt =
     (if list_all (\<lambda>f. is_file (snd f)) (filter (\<lambda>f. is_code code_exts (fst f)) (concat dirs))
      then Inr (cnt + sum_list (map (\<lambda>f. count_lines False (file_text (snd f)))
                                   (filter (\<lambda>f. is_code code_exts (fst f)) (concat dirs))))
      else Inl FileNotFoundError)"
  by (induction dirs arbitrary: cnt) (auto simp: lines_of_files_eq)

lemma lines_of_code_eq:
  "lines_of_code path code_exts =
     (if list_all (\<lambda>f. is_file (snd f))
           (filter (\<lambda>f. is_code code_exts (fst f)) (concat (walk path)))
      then Inr (sum_list (map (\<lambda>f. count_lines False (file_text (snd f)))
                           (filter (\<lambda>f. is_code code_exts (fst f)) (concat (walk path)))))
      else Inl FileNotFoundError)"
  by (simp add: lines_of_code_def lines_of_dirs_eq)

lemma is_code_a_py: "is_code DEFAULT_CODE_EXTS ''a.py''"
  by (simp add: is_code_def path_suffix_def str_lower_def char_lower_def DEFAULT_CODE_EXTS_def)

lemma not_is_code_b_txt: "\<not> is_code DEFAULT_CODE_EXTS ''b.txt''"
  by (simp add: is_code_def path_suffix_def str_lower_def char_lower_def DEFAULT_CODE_EXTS_def)

text \<open>
  C5. Take a working copy whose top directory holds, in any order, the file \<open>a.py\<close> with
  three lines, the file \<open>b.txt\<close> and a directory \<open>.git\<close> with any content. Then two files
  are counted, one of them as code, three lines are counted, and the size is the sum of
  the sizes of \<open>a.py\<close> and \<open>b.txt\<close>: nothing under \<open>.git\<close> enters any of the numbers.
\<close>

theorem counts_of_small_working_copy:
  assumes es: "mset es = {#(''a.py'', File sa ta), (''b.txt'', File sb tb), (''.git'', Dir g)#}"
    and lines_a: "count_lines False ta = 3"
  shows "file_counts (Dir es) DEFAULT_CODE_EXTS = (2, 1)
       \<and> lines_of_code (Dir es) DEFAULT_CODE_EXTS = Inr 3
       \<and> repo_size_bytes (Dir es) = int sa + int sb"
proof -
  have "mset (dir_entries es) = {#(''.git'', Dir g)#}"
    unfolding dir_entries_def mset_filter es by simp
  then have dirs: "dir_entries es = [(''.git'', Dir g)]"
    by simp
  have files: "mset (file_entries es) = {#(''a.py'', File sa ta), (''b.txt'', File sb tb)#}"
    unfolding file_entries_def mset_filter es by simp
  have walk: "concat (walk (Dir es)) = file_entries es"
    by (simp add: dirs)
  have "size (mset (file_entries es)) = 2"
    unfolding files by simp
  then have total: "length (file_entries es) = 2"
    by simp
  have "mset (filter (\<lambda>f. is_code DEFAULT_CODE_EXTS (fst f)) (file_entries es))
          = {#(''a.py'', File sa ta)#}"
    unfolding mset_filter files by (simp add: is_code_a_py not_is_code_b_txt)
  then have code: "filter (\<lambda>f. is_code DEFAULT_CODE_EXTS (fst f)) (file_entries es)
          = [(''a.py'', File sa ta)]"
    by (simp only: mset_single_iff)
  have regular: "mset (filter (\<lambda>f. is_file (snd f)) (file_entries es)) = mset (file_entries es)"
    unfolding mset_filter files by simp
  have "sum_list (map (\<lambda>f. st_size (snd f)) (filter (\<lambda>f. is_file (snd f)) (file_entries es)))
          = sum_mset (mset (map (\<lambda>f. st_size (snd f))
                             (filter (\<lambda>f. is_file (snd f)) (file_entries es))))"
    by (simp only: sum_mset_sum_list)
  also have "\<dots> = sum_mset (image_mset (\<lambda>f. st_size (snd f))
                         (mset (filter (\<lambda>f. is_file (snd f)) (file_entries es))))"
    by (simp only: mset_map)
  also have "\<dots> = sum_mset (image_mset (\<lambda>f. st_size (snd f)) (mset (file_entries es)))"
    by (simp only: regular)
  also have "\<dots> = int sa + int sb"
    unfolding files by simp
  finally have size: "repo_size_bytes (Dir es) = int sa + int sb"
    unfolding repo_size_bytes_eq walk .
  have counts: "file_counts (Dir es) DEFAULT_CODE_EXTS = (2, 1)"
    unfolding file_counts_eq walk by (simp add: total code)
  have "lines_of_code (Dir es) DEFAULT_CODE_EXTS = Inr 3"
    unfolding lines_of_code_eq walk by (simp add: code lines_a)
  with counts size show ?thesis by simp
qed

theorem counts_of_small_working_copy_witness:
  "file_counts example_tree DEFAULT_CODE_EXTS = (2, 1)
   \<and> lines_of_code example_tree DEFAULT_CODE_EXTS = Inr 3
   \<and> repo_size_bytes example_tree = 27"
proof -
  have lines: "count_lines False (''import os'' @ [CHR 0x0A] @ ''x = 1'' @ [CHR 0x0A] @ [CHR 0x0A]) = 3"
    by simp
  have entries: "mset [(''a.py'', File 17 (''import os'' @ [CHR 0x0A] @ ''x = 1'' @ [CHR 0x0A] @ [CHR 0x0A])),
          (''b.txt'', File 10 (''1'' @ [CHR 0x0A] @ ''2'' @ [CHR 0x0A] @ ''3'' @ [CHR 0x0A]
                                @ ''4'' @ [CHR 0x0A] @ ''5'' @ [CHR 0x0A])),
          (''.git'', Dir [(''HEAD'', File 21 (''ref: refs/heads/main'' @ [CHR 0x0A])),
                          (''hooks'', Dir [(''pre-commit.py'', File 6 (''pass'' @ [CHR 0x0A] @ [CHR 0x0A]))])])]
     = {#(''a.py'', File 17 (''import os'' @ [CHR 0x0A] @ ''x = 1'' @ [CHR 0x0A] @ [CHR 0x0A])),
          (''b.txt'', File 10 (''1'' @ [CHR 0x0A] @ ''2'' @ [CHR 0x0A] @ ''3'' @ [CHR 0x0A]
                                @ ''4'' @ [CHR 0x0A] @ ''5'' @ [CHR 0x0A])),
          (''.git'', Dir [(''HEAD'', File 21 (''ref: refs/heads/main'' @ [CHR 0x0A])),
                          (''hooks'', Dir [(''pre-commit.py'', File 6 (''pass'' @ [CHR 0x0A] @ [CHR 0x0A]))])])#}"
    by simp
  from counts_of_small_working_copy [OF entries lines] show ?thesis
    unfolding example_tree_def by simp
qed








section \<open>Writing and reading JSON\<close>

lemma hex_val_hex_char: "k < 16 \<Longrightarrow> hex_val (hex_char k) = Some k"
  by (auto simp: hex_val_def hex_char_def Let_def)

lemma scan_u_low:
  assumes "(of_char c :: nat) < 32"
  shows "scan_u (CHR ''0'' # CHR ''0'' # hex_char (of_char c div 16) # hex_char (of_char c mod 16) # t)
           = Inr c"
proof -
  have "(of_char c :: nat) div 16 < 16" "(of_char c :: nat) mod 16 < 16"
    using assms by simp_all
  then have "map hex_val (take 4 (CHR ''0'' # CHR ''0'' # hex_char (of_char c div 16)
                # hex_char (of_char c mod 16) # t))
             = [Some 0, Some 0, Some (of_char c div 16), Some (of_char c mod 16)]"
    by (simp add: hex_val_hex_char) (simp add: hex_val_def)
  then show ?thesis
    using assms by (simp add: scan_u_def)
qed

lemma scan_escape: "scanstring (escape_char c @ t) = cons_result c (scanstring t)"
proof -
  consider (quote) "c = CHR 0x22" | (backslash) "c = CHR 0x5C" | (lf) "c = CHR 0x0A"
    | (cr) "c = CHR 0x0D" | (tab) "c = CHR 0x09" | (bs) "c = CHR 0x08" | (ff) "c = CHR 0x0C"
    | (low) "c \<noteq> CHR 0x22" "c \<noteq> CHR 0x5C" "c \<noteq> CHR 0x0A" "c \<noteq> CHR 0x0D" "c \<noteq> CHR 0x09"
        "c \<noteq> CHR 0x08" "c \<noteq> CHR 0x0C" "(of_char c :: nat) < 32"
    | (plain) "c \<noteq> CHR 0x22" "c \<noteq> CHR 0x5C" "\<not> (of_char c :: nat) < 32"
    by (cases "(of_char c :: nat) < 32") auto
  then show ?thesis
  proof cases
    case low
    then show ?thesis
      by (simp add: escape_char_def scan_u_low)
  next
    case plain
    then have "escape_char c = [c]"
      by (auto simp: escape_char_def)
    with plain show ?thesis by simp
  qed (simp_all add: escape_char_def unescape_def)
qed

lemma scanstring_dump:
  "scanstring (concat (map escape_char s) @ CHR 0x22 # t) = Inr (s, t)"
  by (induction s) (simp_all add: scan_escape cons_result_def)

lemma digit_char: "(k::nat) < 10 \<Longrightarrow> is_digit (char_of (48 + k))"
  by (simp add: is_digit_def)

lemma digit_char_val: "(k::nat) < 10 \<Longrightarrow> (of_char (char_of (48 + k)) :: nat) - 48 = k"
  by simp

lemma digits_of_digits: "list_all is_digit (digits_of n)"
proof (induction n rule: digits_of.induct)
  case (1 n)
  show ?case
  proof (cases "n < 10")
    case True
    then show ?thesis by (subst digits_of.simps) (simp add: digit_char)
  next
    case False
    with 1 show ?thesis by (subst digits_of.simps) (simp add: digit_char)
  qed
qed

lemma digits_of_not_Nil: "digits_of n \<noteq> []"
  by (subst digits_of.simps) simp

lemma digits_of_zero: "digits_of 0 = ''0''"
  by code_simp

lemma hd_digits_of: "0 < n \<Longrightarrow> hd (digits_of n) \<noteq> CHR ''0''"
proof (induction n rule: digits_of.induct)
  case (1 n)
  show ?case
  proof (cases "n < 10")
    case True
    with 1 have "(of_char (char_of (48 + n)) :: nat) \<noteq> of_char CHR ''0''"
      by simp
    then have "char_of (48 + n) \<noteq> CHR ''0''"
      by metis
    with True show ?thesis by (subst digits_of.simps) simp
  next
    case False
    then have "0 < n div 10" by simp
    with 1 False have "hd (digits_of (n div 10)) \<noteq> CHR ''0''" by simp
    with False show ?thesis
      by (subst digits_of.simps) (simp add: digits_of_not_Nil)
  qed
qed

lemma nat_of_digits_snoc:
  "nat_of_digits (ds @ [d]) = 10 * nat_of_digits ds + (of_char d - 48)"
  by (simp add: nat_of_digits_def)

lemma nat_of_digits_of: "nat_of_digits (digits_of n) = n"
proof (induction n rule: digits_of.induct)
  case (1 n)
  show ?case
  proof (cases "n < 10")
    case True
    then show ?thesis
      by (subst digits_of.simps) (simp add: nat_of_digits_def)
  next
    case False
    with 1 have "nat_of_digits (digits_of (n div 10)) = n div 10" by simp
    with False show ?thesis
      by (subst digits_of.simps) (simp add: nat_of_digits_snoc)
  qed
qed

lemma ends_value_not_digit: "ends_value t \<Longrightarrow> t = [] \<or> \<not> is_digit (hd t)"
  by (auto simp: ends_value_def is_digit_def split: list.splits)

lemma ends_value_not_float: "ends_value t \<Longrightarrow> \<not> float_follows t"
  by (auto simp: ends_value_def float_follows_def split: list.splits)

lemma takeWhile_digits:
  assumes "list_all is_digit ds" and "t = [] \<or> \<not> is_digit (hd t)"
  shows "takeWhile is_digit (ds @ t) = ds"
  using assms by (cases t) (auto simp: list_all_iff takeWhile_append)

lemma match_digits:
  assumes "ends_value t"
  shows "(let s0 = digits_of n @ t;
              ds = (if s0 \<noteq> [] \<and> hd s0 = CHR ''0'' then ''0'' else takeWhile is_digit s0)
          in (ds, drop (length ds) s0)) = (digits_of n, t)"
proof (cases "n = 0")
  case True
  then show ?thesis by (simp add: digits_of_zero)
next
  case False
  then have "hd (digits_of n @ t) \<noteq> CHR ''0''"
    using hd_digits_of [of n] digits_of_not_Nil [of n] by simp
  moreover have "takeWhile is_digit (digits_of n @ t) = digits_of n"
    using assms by (intro takeWhile_digits digits_of_digits ends_value_not_digit)
  ultimately show ?thesis by (simp add: Let_def)
qed

lemma hd_digits_of_digit: "is_digit (hd (digits_of n))"
  using digits_of_digits [of n] digits_of_not_Nil [of n]
  by (cases "digits_of n") simp_all

lemma is_digit_not_minus: "is_digit c \<Longrightarrow> c \<noteq> CHR ''-''"
  by (auto simp: is_digit_def)

lemma match_number_dump:
  assumes "ends_value t"
  shows "match_number (dump_int i @ t) = Some (Inr (i, t))"
proof (cases "i < 0")
  case True
  have "(let s0 = digits_of (nat (- i)) @ t;
              ds = (if s0 \<noteq> [] \<and> hd s0 = CHR ''0'' then ''0'' else takeWhile is_digit s0)
          in (ds, drop (length ds) s0)) = (digits_of (nat (- i)), t)"
    using assms by (rule match_digits)
  with True assms show ?thesis
    by (simp add: match_number_def dump_int_def Let_def digits_of_not_Nil
        ends_value_not_float nat_of_digits_of split: if_splits)
next
  case False
  have "(let s0 = digits_of (nat i) @ t;
              ds = (if s0 \<noteq> [] \<and> hd s0 = CHR ''0'' then ''0'' else takeWhile is_digit s0)
          in (ds, drop (length ds) s0)) = (digits_of (nat i), t)"
    using assms by (rule match_digits)
  moreover have "hd (digits_of (nat i) @ t) \<noteq> CHR ''-''"
    using hd_digits_of_digit [of "nat i"] digits_of_not_Nil [of "nat i"]
    by (simp add: is_digit_not_minus)
  ultimately show ?thesis
    using False assms
    by (simp add: match_number_def dump_int_def Let_def digits_of_not_Nil
        ends_value_not_float nat_of_digits_of split: if_splits)
qed

lemma hd_dump_int: "dump_int i \<noteq> [] \<and> (hd (dump_int i) = CHR ''-'' \<or> is_digit (hd (dump_int i)))"
  using hd_digits_of_digit digits_of_not_Nil by (simp add: dump_int_def)

lemma starts_value_dumps: "starts_value (json_dumps v @ t)"
proof (cases v)
  case (JInt i)
  then show ?thesis
    using hd_dump_int [of i]
    by (auto simp: starts_value_def is_ws_def is_digit_def)
qed (auto simp: starts_value_def is_ws_def dump_str_def)

lemma skip_ws_starts: "starts_value s \<Longrightarrow> skip_ws s = s"
  by (cases s) (auto simp: starts_value_def skip_ws_def)

lemma skip_ws_space: "skip_ws (CHR '' '' # s) = skip_ws s"
  by (simp add: skip_ws_def is_ws_def)

lemma skip_ws_dumps: "skip_ws (json_dumps v @ t) = json_dumps v @ t"
  by (rule skip_ws_starts) (rule starts_value_dumps)

lemma skip_ws_ends: "ends_value t \<Longrightarrow> skip_ws t = t"
  by (cases t) (auto simp: ends_value_def skip_ws_def is_ws_def)

lemma scan_once_null: "scan_once (Suc n) (''null'' @ t) = Inr (JNull, t)"
  by simp

lemma scan_once_true: "scan_once (Suc n) (''true'' @ t) = Inr (JBool True, t)"
  by simp

lemma scan_once_false: "scan_once (Suc n) (''false'' @ t) = Inr (JBool False, t)"
  by simp

lemma scan_once_str: "scan_once (Suc n) (dump_str s @ t) = Inr (JStr s, t)"
  by (simp add: dump_str_def scanstring_dump)

lemma scan_once_int:
  assumes "ends_value t"
  shows "scan_once (Suc n) (dump_int i @ t) = Inr (JInt i, t)"
proof -
  obtain c cs where s: "dump_int i @ t = c # cs" and c: "c = CHR ''-'' \<or> is_digit c"
    using hd_dump_int [of i] by (cases "dump_int i") auto
  have "\<not> prefix ''null'' (c # cs)" "\<not> prefix ''true'' (c # cs)" "\<not> prefix ''false'' (c # cs)"
    "c \<noteq> CHR 0x22" "c \<noteq> CHR ''{''" "c \<noteq> CHR ''[''"
    using c by (auto simp: is_digit_def)
  moreover have "match_number (c # cs) = Some (Inr (i, t))"
    using match_number_dump [OF assms, of i] s by simp
  ultimately show ?thesis
    unfolding s by (simp del: prefix_Cons)
qed

lemma join_Cons: "join sep (x # xs) = x @ (if xs = [] then [] else sep @ join sep xs)"
  by (cases xs) simp_all

lemma fuel_Suc: "(k::nat) < n \<Longrightarrow> \<exists>m. n = Suc m"
  by (cases n) simp_all

lemma parse_array_dumps:
  assumes elems: "\<And>x n t. x \<in> set xs \<Longrightarrow> 2 * length (json_dumps x @ t) < n \<Longrightarrow> ends_value t
                    \<Longrightarrow> scan_once n (json_dumps x @ t) = Inr (x, t)"
    and "xs \<noteq> []"
    and "2 * length (join '', '' (map json_dumps xs) @ CHR '']'' # t) + 1 < n"
  shows "parse_array n (join '', '' (map json_dumps xs) @ CHR '']'' # t) acc
           = Inr (JList (acc @ xs), t)"
  using assms
proof (induction xs arbitrary: n acc)
  case Nil
  then show ?case by simp
next
  case (Cons x xs)
  obtain m where n: "n = Suc m"
    using Cons.prems(3) fuel_Suc by blast
  show ?case
  proof (cases "xs = []")
    case True
    have "scan_once m (json_dumps x @ CHR '']'' # t) = Inr (x, CHR '']'' # t)"
      using Cons.prems(3) True
      by (intro Cons.prems(1)) (simp_all add: ends_value_def n)
    with True show ?thesis
      by (simp add: n skip_ws_ends ends_value_def)
  next
    case False
    define rest where "rest = join '', '' (map json_dumps xs) @ CHR '']'' # t"
    have whole: "join '', '' (map json_dumps (x # xs)) @ CHR '']'' # t
                   = json_dumps x @ CHR '','' # CHR '' '' # rest"
      using False by (simp add: join_Cons rest_def)
    have "scan_once m (json_dumps x @ CHR '','' # CHR '' '' # rest)
            = Inr (x, CHR '','' # CHR '' '' # rest)"
      using Cons.prems(3) unfolding whole n
      by (intro Cons.prems(1)) (simp_all add: ends_value_def)
    moreover have "skip_ws rest = rest"
    proof -
      obtain y ys where "xs = y # ys" using False by (cases xs) auto
      then show ?thesis
        unfolding rest_def by (simp add: join_Cons skip_ws_dumps)
    qed
    moreover have "parse_array m rest (acc @ [x]) = Inr (JList ((acc @ [x]) @ xs), t)"
      unfolding rest_def
    proof (rule Cons.IH)
      show "scan_once n (json_dumps y @ t) = Inr (y, t)"
        if "y \<in> set xs" "2 * length (json_dumps y @ t) < n" "ends_value t"
        for y n t
        using that Cons.prems(1) by simp
      show "xs \<noteq> []" by fact
      show "2 * length (join '', '' (map json_dumps xs) @ CHR '']'' # t) + 1 < m"
        using Cons.prems(3) unfolding whole n by (simp add: rest_def)
    qed
    ultimately show ?thesis
      unfolding whole n
      by (simp add: skip_ws_ends ends_value_def skip_ws_space)
  qed
qed

lemma dict_set_new: "key \<notin> fst ` set d \<Longrightarrow> dict_set d key v = d @ [(key, v)]"
  by (induction d) auto

lemma fold_dict_set:
  assumes "distinct (map fst kvs)" and "fst ` set d \<inter> fst ` set kvs = {}"
  shows "fold (\<lambda>kv d. dict_set d (fst kv) (snd kv)) kvs d = d @ kvs"
  using assms
proof (induction kvs arbitrary: d)
  case Nil
  then show ?case by simp
next
  case (Cons kv kvs)
  have "dict_set d (fst kv) (snd kv) = d @ [kv]"
    using Cons.prems(2) by (simp add: dict_set_new)
  moreover have "fold (\<lambda>kv d. dict_set d (fst kv) (snd kv)) kvs (d @ [kv]) = (d @ [kv]) @ kvs"
    using Cons.prems by (intro Cons.IH) auto
  ultimately show ?case by simp
qed

lemma parse_object_dumps:
  assumes vals: "\<And>kv n t. kv \<in> set kvs \<Longrightarrow> 2 * length (json_dumps (snd kv) @ t) < n
                    \<Longrightarrow> ends_value t
                    \<Longrightarrow> scan_once n (json_dumps (snd kv) @ t) = Inr (snd kv, t)"
    and "kvs \<noteq> []"
    and "2 * length (join '', '' (map (\<lambda>kv. dump_str (fst kv) @ '': '' @ json_dumps (snd kv)) kvs)
                      @ CHR ''}'' # t) + 1 < n"
  shows "parse_object n
           (join '', '' (map (\<lambda>kv. dump_str (fst kv) @ '': '' @ json_dumps (snd kv)) kvs)
              @ CHR ''}'' # t) acc
         = Inr (JObj (fold (\<lambda>kv d. dict_set d (fst kv) (snd kv)) kvs acc), t)"
  using assms
proof (induction kvs arbitrary: n acc)
  case Nil
  then show ?case by simp
next
  case (Cons kv kvs)
  obtain m where n: "n = Suc m"
    using Cons.prems(3) fuel_Suc by blast
  define key where "key = concat (map escape_char (fst kv))"
  show ?case
  proof (cases "kvs = []")
    case True
    have "scan_once m (json_dumps (snd kv) @ CHR ''}'' # t) = Inr (snd kv, CHR ''}'' # t)"
      using Cons.prems(3) True
      by (intro Cons.prems(1)) (simp_all add: ends_value_def n)
    with True show ?thesis
      by (simp add: n dump_str_def scanstring_dump skip_ws_def is_ws_def skip_ws_dumps [unfolded skip_ws_def])
  next
    case False
    define rest where
      "rest = join '', '' (map (\<lambda>kv. dump_str (fst kv) @ '': '' @ json_dumps (snd kv)) kvs)
                @ CHR ''}'' # t"
    have whole: "join '', '' (map (\<lambda>kv. dump_str (fst kv) @ '': '' @ json_dumps (snd kv)) (kv # kvs))
                   @ CHR ''}'' # t
                 = dump_str (fst kv) @ '': '' @ json_dumps (snd kv) @ CHR '','' # CHR '' '' # rest"
      using False by (simp add: join_Cons rest_def)
    have "scan_once m (json_dumps (snd kv) @ CHR '','' # CHR '' '' # rest)
            = Inr (snd kv, CHR '','' # CHR '' '' # rest)"
      using Cons.prems(3) unfolding whole n
      by (intro Cons.prems(1)) (simp_all add: ends_value_def)
    moreover have "skip_ws rest = rest"
    proof -
      obtain y ys where "kvs = y # ys" using False by (cases kvs) auto
      then show ?thesis
        unfolding rest_def by (simp add: join_Cons dump_str_def skip_ws_def is_ws_def)
    qed
    moreover have "parse_object m rest (dict_set acc (fst kv) (snd kv))
                     = Inr (JObj (fold (\<lambda>kv d. dict_set d (fst kv) (snd kv)) kvs
                                    (dict_set acc (fst kv) (snd kv))), t)"
      unfolding rest_def
    proof (rule Cons.IH)
      show "scan_once n (json_dumps (snd e) @ t) = Inr (snd e, t)"
        if "e \<in> set kvs" "2 * length (json_dumps (snd e) @ t) < n" "ends_value t"
        for e n t
        using that Cons.prems(1) by simp
      show "kvs \<noteq> []" by fact
      show "2 * length (join '', '' (map (\<lambda>kv. dump_str (fst kv) @ '': '' @ json_dumps (snd kv)) kvs)
                          @ CHR ''}'' # t) + 1 < m"
        using Cons.prems(3) unfolding whole n by (simp add: rest_def)
    qed
    moreover have "hd rest = CHR 0x22" "rest \<noteq> []"
    proof -
      obtain y ys where "kvs = y # ys" using False by (cases kvs) auto
      then show "hd rest = CHR 0x22" "rest \<noteq> []"
        unfolding rest_def by (simp_all add: join_Cons dump_str_def)
    qed
    ultimately show ?thesis
      unfolding whole n
      by (simp add: dump_str_def scanstring_dump skip_ws_def is_ws_def skip_ws_dumps [unfolded skip_ws_def])
  qed
qed

lemma scan_once_dumps:
  "wf_json v \<Longrightarrow> 2 * length (json_dumps v @ t) < n \<Longrightarrow> ends_value t
   \<Longrightarrow> scan_once n (json_dumps v @ t) = Inr (v, t)"
proof (induction v arbitrary: n t)
  case JNull
  then obtain m where "n = Suc m" using fuel_Suc by blast
  then show ?case by (simp only: json_dumps.simps scan_once_null)
next
  case (JBool b)
  then obtain m where "n = Suc m" using fuel_Suc by blast
  then show ?case
    by (cases b) (simp_all only: json_dumps.simps if_True if_False scan_once_true scan_once_false)
next
  case (JInt i)
  then obtain m where "n = Suc m" using fuel_Suc by blast
  with JInt.prems(3) show ?case
    by (simp only: json_dumps.simps scan_once_int)
next
  case (JStr s)
  then obtain m where "n = Suc m" using fuel_Suc by blast
  then show ?case by (simp only: json_dumps.simps scan_once_str)
next
  case (JList xs)
  obtain m where n: "n = Suc m" using JList.prems(2) fuel_Suc by blast
  show ?case
  proof (cases "xs = []")
    case True
    then show ?thesis
      by (simp add: n skip_ws_def is_ws_def)
  next
    case False
    define body where "body = join '', '' (map json_dumps xs) @ CHR '']'' # t"
    obtain y ys where xs: "xs = y # ys" using False by (cases xs) auto
    have start: "starts_value body"
      using starts_value_dumps [of y] unfolding body_def xs
      by (simp add: join_Cons starts_value_def)
    have "parse_array m body [] = Inr (JList ([] @ xs), t)"
      unfolding body_def
    proof (rule parse_array_dumps)
      show "scan_once n (json_dumps x @ t) = Inr (x, t)"
        if "x \<in> set xs" "2 * length (json_dumps x @ t) < n" "ends_value t" for x n t
        using that JList.IH [OF that(1)] JList.prems(1) by (simp add: list_all_iff)
      show "xs \<noteq> []" by fact
      show "2 * length (join '', '' (map json_dumps xs) @ CHR '']'' # t) + 1 < m"
        using JList.prems(2) by (simp add: n)
    qed
    moreover have "json_dumps (JList xs) @ t = CHR ''['' # body"
      by (simp add: body_def)
    ultimately show ?thesis
      using start
      by (simp add: n skip_ws_starts starts_value_def del: json_dumps.simps)
  qed
next
  case (JObj kvs)
  obtain m where n: "n = Suc m" using JObj.prems(2) fuel_Suc by blast
  show ?case
  proof (cases "kvs = []")
    case True
    then show ?thesis
      by (simp add: n skip_ws_def is_ws_def)
  next
    case False
    define body where
      "body = join '', '' (map (\<lambda>kv. dump_str (fst kv) @ '': '' @ json_dumps (snd kv)) kvs)
                @ CHR ''}'' # t"
    obtain y ys where kvs: "kvs = y # ys" using False by (cases kvs) auto
    have start: "starts_value body"
      unfolding body_def kvs
      by (simp add: join_Cons starts_value_def dump_str_def is_ws_def)
    have "parse_object m body []
            = Inr (JObj (fold (\<lambda>kv d. dict_set d (fst kv) (snd kv)) kvs []), t)"
      unfolding body_def
    proof (rule parse_object_dumps)
      show "scan_once n (json_dumps (snd kv) @ t) = Inr (snd kv, t)"
        if "kv \<in> set kvs" "2 * length (json_dumps (snd kv) @ t) < n" "ends_value t" for kv n t
      proof -
        have "snd kv \<in> Basic_BNFs.snds kv"
          by (cases kv) simp
        moreover have "wf_json (snd kv)"
          using that(1) JObj.prems(1) by (simp add: list_all_iff)
        ultimately show ?thesis
          using that JObj.IH [OF that(1)] by simp
      qed
      show "kvs \<noteq> []" by fact
      show "2 * length (join '', '' (map (\<lambda>kv. dump_str (fst kv) @ '': '' @ json_dumps (snd kv)) kvs)
                          @ CHR ''}'' # t) + 1 < m"
        using JObj.prems(2) by (simp add: n)
    qed
    moreover have "fold (\<lambda>kv d. dict_set d (fst kv) (snd kv)) kvs [] = kvs"
      using fold_dict_set [of kvs "[]"] JObj.prems(1) by simp
    moreover have "json_dumps (JObj kvs) @ t = CHR ''{'' # body"
      by (simp add: body_def)
    ultimately show ?thesis
      using start
      by (simp add: n skip_ws_starts starts_value_def del: json_dumps.simps)
  qed
qed

text \<open>Reading what was written gives the value back.\<close>

lemma json_loads_dumps:
  assumes "wf_json v"
  shows "json_loads (json_dumps v) = Inr v"
proof -
  have "scan_once (Suc (2 * length (json_dumps v))) (json_dumps v @ []) = Inr (v, [])"
    using assms by (rule scan_once_dumps) (simp_all add: ends_value_def)
  moreover have "skip_ws (json_dumps v) = json_dumps v"
    using skip_ws_dumps [of v "[]"] by simp
  ultimately show ?thesis
    by (simp add: json_loads_def skip_ws_def del: scan_once.simps)
qed

lemma skip_ws_length: "length (skip_ws s) \<le> length s"
  by (simp add: skip_ws_def length_dropWhile_le)

lemma scan_u_fuel: "scan_u s \<noteq> Inl OutOfFuel"
  by (auto simp: scan_u_def Let_def split: list.splits option.splits)

lemma scanstring_step:
  obtains (closed) "scanstring (c # cs) = Inr ([], cs)"
  | (error) e where "scanstring (c # cs) = Inl e" "e \<noteq> OutOfFuel"
  | (more) ch t where "scanstring (c # cs) = cons_result ch (scanstring t)"
      "length t \<le> length cs"
proof (cases "c = CHR 0x22")
  case True
  then show ?thesis using closed by simp
next
  case quote: False
  show ?thesis
  proof (cases "c = CHR 0x5C")
    case backslash: True
    show ?thesis
    proof (cases cs)
      case Nil
      then show ?thesis using error [of JSONDecodeError] quote backslash by simp
    next
      case (Cons e r)
      show ?thesis
      proof (cases "e = CHR ''u''")
        case True
        show ?thesis
        proof (cases "scan_u r")
          case (Inl x)
          then show ?thesis
            using error [of x] scan_u_fuel [of r] quote backslash Cons True by simp
        next
          case (Inr ch)
          then show ?thesis
            using more [of ch "drop 4 r"] quote backslash Cons True by simp
        qed
      next
        case False
        show ?thesis
        proof (cases "unescape e")
          case None
          then show ?thesis
            using error [of JSONDecodeError] quote backslash Cons False by simp
        next
          case (Some ch)
          then show ?thesis
            using more [of ch r] quote backslash Cons False by simp
        qed
      qed
    qed
  next
    case False
    show ?thesis
    proof (cases "(of_char c :: nat) < 32")
      case True
      then show ?thesis using error [of JSONDecodeError] quote False by simp
    next
      case plain: False
      then show ?thesis using more [of c cs] quote False by simp
    qed
  qed
qed

lemma scanstring_fuel: "scanstring s \<noteq> Inl OutOfFuel"
proof (induction s rule: length_induct)
  case (1 s)
  show ?case
  proof (cases s)
    case Nil
    then show ?thesis by simp
  next
    case (Cons c cs)
    show ?thesis
    proof (cases c cs rule: scanstring_step)
      case closed
      then show ?thesis by (simp add: Cons)
    next
      case (error e)
      then show ?thesis by (simp add: Cons)
    next
      case (more ch t)
      then have "scanstring t \<noteq> Inl OutOfFuel"
        using 1 Cons by simp
      with more show ?thesis
        by (auto simp: Cons cons_result_def split: sum.splits)
    qed
  qed
qed

lemma scanstring_shorter: "scanstring s = Inr (x, r) \<Longrightarrow> length r < length s"
proof (induction s arbitrary: x r rule: length_induct)
  case (1 s)
  show ?case
  proof (cases s)
    case Nil
    with "1.prems" show ?thesis by simp
  next
    case (Cons c cs)
    show ?thesis
    proof (cases c cs rule: scanstring_step)
      case closed
      with "1.prems" show ?thesis by (simp add: Cons)
    next
      case (error e)
      with "1.prems" show ?thesis by (simp add: Cons)
    next
      case (more ch t)
      with "1.prems" obtain y where "scanstring t = Inr (y, r)"
        by (auto simp: Cons cons_result_def split: sum.splits)
      moreover have "length t < length s"
        using more(2) Cons by simp
      ultimately have "length r < length t"
        using "1.IH" by blast
      with more(2) show ?thesis by (simp add: Cons)
    qed
  qed
qed

lemma match_number_fuel: "match_number s \<noteq> Some (Inl OutOfFuel)"
  by (simp add: match_number_def Let_def)

lemma match_number_shorter:
  assumes "match_number s = Some (Inr (i, r))"
  shows "length r < length s"
proof -
  define s0 where "s0 = (if s \<noteq> [] \<and> hd s = CHR ''-'' then tl s else s)"
  define ds where
    "ds = (if s0 \<noteq> [] \<and> hd s0 = CHR ''0'' then ''0'' else takeWhile is_digit s0)"
  have r: "r = drop (length ds) s0" and ds: "ds \<noteq> []"
    using assms
    by (auto simp: match_number_def Let_def s0_def ds_def split: if_splits)
  have "length (takeWhile is_digit s0) \<le> length s0"
    by (rule length_takeWhile_le)
  then have "length ds \<le> length s0"
    by (cases s0) (simp_all add: ds_def)
  moreover have "length s0 \<le> length s"
    by (simp add: s0_def)
  ultimately show ?thesis
    using ds by (cases ds) (auto simp: r)
qed


lemma prefix_shorter: "prefix p s \<Longrightarrow> p \<noteq> [] \<Longrightarrow> length (drop (length p) s) < length s"
  by (auto simp: prefix_def)

text \<open>The counter of the decoder is never used up: with a counter above twice the length
  of the text, each of the three functions answers, and what it leaves of the text is
  shorter than the text.\<close>

lemma decoder_fuel:
  "(\<forall>s. 2 * length s < n \<longrightarrow>
        scan_once n s \<noteq> Inl OutOfFuel
        \<and> (\<forall>v r. scan_once n s = Inr (v, r) \<longrightarrow> length r < length s))
   \<and> (\<forall>s acc. 2 * length s + 1 < n \<longrightarrow>
        parse_array n s acc \<noteq> Inl OutOfFuel
        \<and> (\<forall>v r. parse_array n s acc = Inr (v, r) \<longrightarrow> length r < length s))
   \<and> (\<forall>s acc. 2 * length s + 1 < n \<longrightarrow>
        parse_object n s acc \<noteq> Inl OutOfFuel
        \<and> (\<forall>v r. parse_object n s acc = Inr (v, r) \<longrightarrow> length r < length s))"
proof (induction n)
  case 0
  then show ?case by simp
next
  case (Suc n)
  then have once: "scan_once n s \<noteq> Inl OutOfFuel"
      and once_rest: "scan_once n s = Inr (v, r) \<Longrightarrow> length r < length s"
    if "2 * length s < n" for s v r
    using that by blast+
  from Suc have array: "parse_array n s acc \<noteq> Inl OutOfFuel"
      and array_rest: "parse_array n s acc = Inr (v, r) \<Longrightarrow> length r < length s"
    if "2 * length s + 1 < n" for s acc v r
    using that by blast+
  from Suc have object: "parse_object n s acc \<noteq> Inl OutOfFuel"
      and object_rest: "parse_object n s acc = Inr (v, r) \<Longrightarrow> length r < length s"
    if "2 * length s + 1 < n" for s acc v r
    using that by blast+
  have a: "scan_once (Suc n) s \<noteq> Inl OutOfFuel
         \<and> (\<forall>v r. scan_once (Suc n) s = Inr (v, r) \<longrightarrow> length r < length s)"
    if fuel: "2 * length s < Suc n" for s
  proof (cases s)
    case Nil
    then show ?thesis by simp
  next
    case (Cons c cs)
    have inner: "2 * length (skip_ws cs) + 1 < n"
      using fuel skip_ws_length [of cs] by (simp add: Cons)
    have inner_len: "length (skip_ws cs) < length s"
      using skip_ws_length [of cs] by (simp add: Cons)
    consider (str) "c = CHR 0x22"
      | (obj) "c \<noteq> CHR 0x22" "c = CHR ''{''"
      | (arr) "c \<noteq> CHR 0x22" "c \<noteq> CHR ''{''" "c = CHR ''[''"
      | (atom) "c \<noteq> CHR 0x22" "c \<noteq> CHR ''{''" "c \<noteq> CHR ''[''"
      by blast
    then show ?thesis
    proof cases
      case str
      then show ?thesis
        using scanstring_fuel [of cs] scanstring_shorter [of cs]
        by (auto simp: Cons split: sum.splits)
    next
      case obj
      show ?thesis
      proof (cases "skip_ws cs \<noteq> [] \<and> hd (skip_ws cs) = CHR ''}''")
        case True
        then have "length (tl (skip_ws cs)) < length s"
          using inner_len by (cases "skip_ws cs") simp_all
        with True obj show ?thesis by (simp add: Cons Let_def)
      next
        case False
        then have "scan_once (Suc n) s = parse_object n (skip_ws cs) []"
          using obj by (auto simp: Cons Let_def)
        then show ?thesis
          using object [OF inner] object_rest [OF inner] inner_len by fastforce
      qed
    next
      case arr
      show ?thesis
      proof (cases "skip_ws cs \<noteq> [] \<and> hd (skip_ws cs) = CHR '']''")
        case True
        then have "length (tl (skip_ws cs)) < length s"
          using inner_len by (cases "skip_ws cs") simp_all
        with True arr show ?thesis by (simp add: Cons Let_def)
      next
        case False
        then have "scan_once (Suc n) s = parse_array n (skip_ws cs) []"
          using arr by (auto simp: Cons Let_def)
        then show ?thesis
          using array [OF inner] array_rest [OF inner] inner_len by fastforce
      qed
    next
      case atom
      have eq: "scan_once (Suc n) s =
          (if prefix ''null'' s then Inr (JNull, drop 4 s)
           else if prefix ''true'' s then Inr (JBool True, drop 4 s)
           else if prefix ''false'' s then Inr (JBool False, drop 5 s)
           else
             (case match_number s of
                Some res \<Rightarrow>
                  (case res of Inl e \<Rightarrow> Inl e | Inr (i, r) \<Rightarrow> Inr (JInt i, r))
              | None \<Rightarrow>
                  if prefix ''NaN'' s \<or> prefix ''Infinity'' s \<or> prefix ''-Infinity'' s
                  then Inl Unmodelled
                  else Inl JSONDecodeError))"
        unfolding Cons using atom by simp
      consider (null) "prefix ''null'' s"
        | (true) "\<not> prefix ''null'' s" "prefix ''true'' s"
        | (false) "\<not> prefix ''null'' s" "\<not> prefix ''true'' s" "prefix ''false'' s"
        | (number) "\<not> prefix ''null'' s" "\<not> prefix ''true'' s" "\<not> prefix ''false'' s"
        by blast
      then show ?thesis
      proof cases
        case null
        then show ?thesis
          using prefix_shorter [of "''null''" s] by (simp only: eq if_True) simp
      next
        case true
        then show ?thesis
          using prefix_shorter [of "''true''" s] by (simp only: eq if_True if_False) simp
      next
        case false
        then show ?thesis
          using prefix_shorter [of "''false''" s] by (simp only: eq if_True if_False) simp
      next
        case number
        show ?thesis
        proof (cases "match_number s")
          case None
          with number show ?thesis
            by (simp only: eq if_False option.case) (simp del: prefix_Cons)
        next
          case (Some res)
          show ?thesis
          proof (cases res)
            case (Inl e)
            with number Some match_number_fuel [of s] show ?thesis
              by (simp only: eq if_False option.case sum.case) simp
          next
            case (Inr ir)
            obtain i r where ir: "ir = (i, r)" by (cases ir)
            have "length r < length s"
              using Some Inr ir by (intro match_number_shorter [of s i r]) simp
            with number Some Inr ir show ?thesis
              by (simp only: eq if_False option.case sum.case) simp
          qed
        qed
      qed
    qed
  qed
  have b: "parse_array (Suc n) s acc \<noteq> Inl OutOfFuel
         \<and> (\<forall>v r. parse_array (Suc n) s acc = Inr (v, r) \<longrightarrow> length r < length s)"
    if fuel: "2 * length s + 1 < Suc n" for s acc
  proof (cases "scan_once n s")
    case (Inl e)
    then show ?thesis using once [of s] fuel by auto
  next
    case (Inr res)
    obtain v r where res: "res = (v, r)" by (cases res)
    have r: "length r < length s"
      using once_rest [of s v r] fuel Inr res by simp
    show ?thesis
    proof (cases "skip_ws r")
      case Nil
      with Inr res show ?thesis by simp
    next
      case (Cons c cs)
      have cs: "length cs < length r"
        using skip_ws_length [of r] by (simp add: Cons)
      have next_fuel: "2 * length (skip_ws cs) + 1 < n"
        using fuel r cs skip_ws_length [of cs] by simp
      have next_len: "length (skip_ws cs) < length s"
        using r cs skip_ws_length [of cs] by simp
      have eq: "parse_array (Suc n) s acc =
          (if c = CHR '']'' then Inr (JList (acc @ [v]), cs)
           else if c = CHR '','' then parse_array n (skip_ws cs) (acc @ [v])
           else Inl JSONDecodeError)"
        using Inr res Cons by simp
      consider (close) "c = CHR '']''" | (comma) "c \<noteq> CHR '']''" "c = CHR '',''"
        | (other) "c \<noteq> CHR '']''" "c \<noteq> CHR '',''"
        by blast
      then show ?thesis
      proof cases
        case close
        with r cs show ?thesis by (simp only: eq if_True) simp
      next
        case comma
        have "length r' < length s" if "parse_array n (skip_ws cs) (acc @ [v]) = Inr (v', r')"
          for v' r'
          using array_rest [OF next_fuel that] next_len by simp
        moreover have "parse_array (Suc n) s acc = parse_array n (skip_ws cs) (acc @ [v])"
          using comma by (simp only: eq) simp
        ultimately show ?thesis
          using array [OF next_fuel, of "acc @ [v]"] by (simp del: parse_array.simps)
      next
        case other
        then show ?thesis by (simp only: eq if_False) simp
      qed
    qed
  qed
  have c: "parse_object (Suc n) s acc \<noteq> Inl OutOfFuel
         \<and> (\<forall>v r. parse_object (Suc n) s acc = Inr (v, r) \<longrightarrow> length r < length s)"
    if fuel: "2 * length s + 1 < Suc n" for s acc
  proof (cases s)
    case Nil
    then show ?thesis by simp
  next
    case (Cons q s1)
    show ?thesis
    proof (cases "q = CHR 0x22")
      case False
      then show ?thesis by (simp add: Cons)
    next
      case quote: True
      show ?thesis
      proof (cases "scanstring s1")
        case (Inl e)
        then show ?thesis using scanstring_fuel [of s1] quote by (auto simp: Cons)
      next
        case (Inr kr)
        obtain key r where kr: "kr = (key, r)" by (cases kr)
        have r: "length r < length s1"
          using scanstring_shorter [of s1 key r] Inr kr by simp
        show ?thesis
        proof (cases "skip_ws r")
          case Nil
          then show ?thesis using Inr kr quote by (simp add: Cons)
        next
          case colon: (Cons colon r1)
          have r1: "length r1 < length r"
            using skip_ws_length [of r] by (simp add: colon)
          show ?thesis
          proof (cases "colon = CHR '':''")
            case False
            then show ?thesis using Inr kr quote colon by (simp add: Cons)
          next
            case True
            have value_fuel: "2 * length (skip_ws r1) < n"
              using fuel r r1 skip_ws_length [of r1] by (simp add: Cons)
            show ?thesis
            proof (cases "scan_once n (skip_ws r1)")
              case (Inl e)
              then show ?thesis
                using once [OF value_fuel] Inr kr quote colon True
                by (auto simp: Cons simp del: scan_once.simps)
            next
              case scanned: (Inr vr)
              obtain v r2 where vr: "vr = (v, r2)" by (cases vr)
              have r2: "length r2 < length (skip_ws r1)"
                using once_rest [OF value_fuel, of v r2] scanned vr by simp
              show ?thesis
              proof (cases "skip_ws r2")
                case Nil
                then show ?thesis
                  using Inr kr quote colon True scanned vr
                  by (simp add: Cons del: scan_once.simps)
              next
                case sep: (Cons c cs)
                have cs: "length cs < length r2"
                  using skip_ws_length [of r2] by (simp add: sep)
                have len: "length (skip_ws cs) < length s"
                  using r r1 r2 cs skip_ws_length [of cs] skip_ws_length [of r1]
                  by (simp add: Cons)
                have next_fuel: "2 * length (skip_ws cs) + 1 < n"
                  using fuel r r1 r2 cs skip_ws_length [of cs] skip_ws_length [of r1]
                  by (simp add: Cons)
                have short: "length cs < length s"
                  using r r1 r2 cs skip_ws_length [of r1] by (simp add: Cons)
                have eq: "parse_object (Suc n) s acc =
                    (if c = CHR ''}'' then Inr (JObj (dict_set acc key v), cs)
                     else if c = CHR '','' then
                       parse_object n (skip_ws cs) (dict_set acc key v)
                     else Inl JSONDecodeError)"
                  using Inr kr quote colon True scanned vr sep
                  by (simp add: Cons del: scan_once.simps)
                consider (close) "c = CHR ''}''" | (comma) "c \<noteq> CHR ''}''" "c = CHR '',''"
                  | (other) "c \<noteq> CHR ''}''" "c \<noteq> CHR '',''"
                  by blast
                then show ?thesis
                proof cases
                  case close
                  with short show ?thesis by (simp only: eq if_True) simp
                next
                  case comma
                  have "length r' < length s"
                    if "parse_object n (skip_ws cs) (dict_set acc key v) = Inr (v', r')"
                    for v' r'
                    using object_rest [OF next_fuel that] len by simp
                  moreover have "parse_object (Suc n) s acc
                                   = parse_object n (skip_ws cs) (dict_set acc key v)"
                    using comma by (simp only: eq) simp
                  ultimately show ?thesis
                    using object [OF next_fuel, of "dict_set acc key v"]
                    by (simp del: parse_object.simps)
                next
                  case other
                  then show ?thesis by (simp only: eq if_False) simp
                qed
              qed
            qed
          qed
        qed
      qed
    qed
  qed
  from a b c show ?case by blast
qed

lemma json_loads_fuel: "json_loads text \<noteq> Inl OutOfFuel"
proof -
  have "2 * length (skip_ws text) < Suc (2 * length text)"
    using skip_ws_length [of "text"] by simp
  then have "scan_once (Suc (2 * length text)) (skip_ws text) \<noteq> Inl OutOfFuel"
    using decoder_fuel [of "Suc (2 * length text)"] by blast
  then show ?thesis
    by (auto simp: json_loads_def simp del: scan_once.simps split: sum.splits)
qed

text \<open>A written text holds no control character, so no line end: it is read back from a
  file as it was written, whatever the translation of line ends.\<close>

lemma hex_char_printable: "k < 16 \<Longrightarrow> 32 \<le> (of_char (hex_char k) :: nat)"
  by (simp add: hex_char_def)

lemma escape_char_printable: "list_all (\<lambda>x. 32 \<le> (of_char x :: nat)) (escape_char c)"
proof (cases "(of_char c :: nat) < 32")
  case True
  then have "(of_char c :: nat) div 16 < 16" "(of_char c :: nat) mod 16 < 16"
    by simp_all
  then show ?thesis
    by (simp add: escape_char_def hex_char_printable)
next
  case False
  then show ?thesis
    by (simp add: escape_char_def)
qed

lemma dump_str_printable: "list_all (\<lambda>x. 32 \<le> (of_char x :: nat)) (dump_str s)"
  by (induction s) (simp_all add: dump_str_def escape_char_printable)

lemma dump_int_printable: "list_all (\<lambda>x. 32 \<le> (of_char x :: nat)) (dump_int i)"
proof -
  have "list_all (\<lambda>x. 32 \<le> (of_char x :: nat)) (digits_of n)" for n
    using digits_of_digits [of n] by (auto simp: list_all_iff is_digit_def)
  then show ?thesis
    by (simp add: dump_int_def)
qed

lemma join_printable:
  assumes "\<And>x. x \<in> set xs \<Longrightarrow> list_all P x" and "list_all P sep"
  shows "list_all P (join sep xs)"
  using assms by (induction sep xs rule: join.induct) simp_all

lemma json_dumps_printable: "list_all (\<lambda>x. 32 \<le> (of_char x :: nat)) (json_dumps v)"
proof (induction v)
  case (JList xs)
  have "list_all (\<lambda>x. 32 \<le> (of_char x :: nat)) (join '', '' (map json_dumps xs))"
    using JList.IH by (intro join_printable) auto
  then show ?case by simp
next
  case (JObj kvs)
  have "list_all (\<lambda>x. 32 \<le> (of_char x :: nat))
          (join '', '' (map (\<lambda>kv. dump_str (fst kv) @ '': '' @ json_dumps (snd kv)) kvs))"
  proof (intro join_printable)
    fix x
    assume "x \<in> set (map (\<lambda>kv. dump_str (fst kv) @ '': '' @ json_dumps (snd kv)) kvs)"
    then obtain kv where kv: "kv \<in> set kvs"
      and x: "x = dump_str (fst kv) @ '': '' @ json_dumps (snd kv)"
      by auto
    have "snd kv \<in> Basic_BNFs.snds kv"
      by (cases kv) simp
    then have "list_all (\<lambda>x. 32 \<le> (of_char x :: nat)) (json_dumps (snd kv))"
      using JObj.IH [OF kv] by simp
    then show "list_all (\<lambda>x. 32 \<le> (of_char x :: nat)) x"
      by (simp add: x dump_str_printable)
  qed simp
  then show ?case by simp
qed (simp_all add: dump_str_printable dump_int_printable)

section \<open>Properties of \<open>get_stats\<close>\<close>

text \<open>The request to the hosting API changes nothing of the world but its log, and
  the cache is read the same whatever the log.\<close>

lemma remote_commit_world:
  assumes "get_remote_commit w repo_url = (res, w1)"
  shows "\<exists>l. w1 = w\<lparr>log := log w @ l\<rparr>"
proof (cases "repo_parts repo_url")
  case None
  with assms have "w1 = w\<lparr>log := log w @ []\<rparr>"
    by (simp add: get_remote_commit_def)
  then show ?thesis by blast
next
  case (Some parts)
  obtain owner name where "parts = (owner, name)" by (cases parts)
  with Some assms
  have "w1 = w\<lparr>log := log w @ [HttpGet (''https://api.github.com/repos/'' @ owner @ ''/'' @ name @ ''/commits'')]\<rparr>"
    by (auto simp: get_remote_commit_def Let_def split: sum.splits if_splits json.splits list.splits)
  then show ?thesis by blast
qed

lemma load_cached_stats_log [simp]:
  "load_cached_stats (w\<lparr>log := l\<rparr>) repo_url cache_dir = load_cached_stats w repo_url cache_dir"
  by (simp add: load_cached_stats_def)

text \<open>The path of \<open>get_stats\<close> on which the statistics are computed afresh.\<close>

lemma get_stats_miss:
  assumes remote: "get_remote_commit w repo_url = (Inr remote_sha, w1)"
    and available: "remote_sha \<noteq> JNull"
    and cached: "load_cached_stats w repo_url (REPO_CACHES cfg) = Inr cached"
    and stale: "cache_valid cached remote_sha = Inr False"
    and result: "get_stats w repo_url cfg code_exts_arg = (Inr stats, w')"
  obtains w2 w3 local_sha total_lines where
    "clone_or_fetch w1 repo_url (path_join (REPO_FOLDER cfg) (repo_name repo_url)) = (Inr (), w2)"
    "local_commit w2 (path_join (REPO_FOLDER cfg) (repo_name repo_url)) = (Inr local_sha, w3)"
    "lines_of_code (working_copy w3 (path_join (REPO_FOLDER cfg) (repo_name repo_url)))
       (case code_exts_arg of
          None \<Rightarrow> DEFAULT_CODE_EXTS
        | Some exts \<Rightarrow> if exts = {} then DEFAULT_CODE_EXTS else exts) = Inr total_lines"
    "stats = JObj
       [(KEY_COMMIT, remote_sha),
        (KEY_REPO, JStr repo_url),
        (KEY_TOTAL_FILES,
         JInt (fst (file_counts (working_copy w3 (path_join (REPO_FOLDER cfg) (repo_name repo_url)))
                      (case code_exts_arg of
                         None \<Rightarrow> DEFAULT_CODE_EXTS
                       | Some exts \<Rightarrow> if exts = {} then DEFAULT_CODE_EXTS else exts)))),
        (KEY_CODE_FILES,
         JInt (snd (file_counts (working_copy w3 (path_join (REPO_FOLDER cfg) (repo_name repo_url)))
                      (case code_exts_arg of
                         None \<Rightarrow> DEFAULT_CODE_EXTS
                       | Some exts \<Rightarrow> if exts = {} then DEFAULT_CODE_EXTS else exts)))),
        (KEY_BYTES,
         JInt (repo_size_bytes (working_copy w3 (path_join (REPO_FOLDER cfg) (repo_name repo_url))))),
        (KEY_LINES, JInt total_lines)]"
    "w' = save_cached_stats w3 repo_url (REPO_CACHES cfg) stats"
proof -
  define code_exts where
    "code_exts = (case code_exts_arg of
                    None \<Rightarrow> DEFAULT_CODE_EXTS
                  | Some exts \<Rightarrow> if exts = {} then DEFAULT_CODE_EXTS else exts)"
  define lp where "lp = path_join (REPO_FOLDER cfg) (repo_name repo_url)"
  obtain l where w1: "w1 = w\<lparr>log := log w @ l\<rparr>"
    using remote_commit_world [OF remote] by blast
  obtain parts where parts: "repo_parts repo_url = Some parts"
    using remote available by (auto simp: get_remote_commit_def split: option.splits)
  have load: "load_cached_stats w1 repo_url (REPO_CACHES cfg) = Inr cached"
    using cached by (simp add: w1)
  show thesis
    using result that [unfolded code_exts_def [symmetric] lp_def [symmetric]]
    unfolding get_stats_def Let_def code_exts_def [symmetric] lp_def [symmetric]
    by (auto simp: parts remote available load stale split: prod.splits sum.splits)
qed

lemma stats_keys_distinct:
  "distinct [KEY_COMMIT, KEY_REPO, KEY_TOTAL_FILES, KEY_CODE_FILES, KEY_BYTES, KEY_LINES]"
  by (simp add: KEY_COMMIT_def KEY_REPO_def KEY_TOTAL_FILES_def KEY_CODE_FILES_def
      KEY_BYTES_def KEY_LINES_def)

lemma code_files_le_total:
  "snd (file_counts path code_exts) \<le> fst (file_counts path code_exts)"
  by (simp add: file_counts_eq)

text \<open>
  C6. Let the hosting API report a commit for the URL, and let the cache hold nothing for
  it or an entry that the test of \<open>get_stats\<close> does not accept. Then statistics that
  \<open>get_stats\<close> returns hold a number of files in all that is not below the number of code
  files, and a size in bytes that is not negative.
\<close>

theorem recomputed_stats_bounds:
  assumes remote: "get_remote_commit w repo_url = (Inr remote_sha, w1)"
    and available: "remote_sha \<noteq> JNull"
    and cached: "load_cached_stats w repo_url (REPO_CACHES cfg) = Inr cached"
    and stale: "cache_valid cached remote_sha = Inr False"
    and result: "get_stats w repo_url cfg code_exts_arg = (Inr stats, w')"
  shows "\<exists>total_files code_files size_bytes.
           py_get stats KEY_TOTAL_FILES = Inr (JInt total_files)
           \<and> py_get stats KEY_CODE_FILES = Inr (JInt code_files)
           \<and> py_get stats KEY_BYTES = Inr (JInt size_bytes)
           \<and> code_files \<le> total_files
           \<and> 0 \<le> size_bytes"
proof -
  from remote available cached stale result
  obtain w3 total_lines t code_exts where
    "stats = JObj
       [(KEY_COMMIT, remote_sha),
        (KEY_REPO, JStr repo_url),
        (KEY_TOTAL_FILES, JInt (fst (file_counts t code_exts))),
        (KEY_CODE_FILES, JInt (snd (file_counts t code_exts))),
        (KEY_BYTES, JInt (repo_size_bytes t)),
        (KEY_LINES, JInt total_lines)]"
    by (rule get_stats_miss) blast
  then have "py_get stats KEY_TOTAL_FILES = Inr (JInt (fst (file_counts t code_exts)))"
    and "py_get stats KEY_CODE_FILES = Inr (JInt (snd (file_counts t code_exts)))"
    and "py_get stats KEY_BYTES = Inr (JInt (repo_size_bytes t))"
    using stats_keys_distinct by auto
  then show ?thesis
    using code_files_le_total [of t code_exts] repo_size_bytes_nonneg [of t] by blast
qed

section \<open>The first request in the example world\<close>

lemma example_parts: "repo_parts example_url = Some (''o'', ''r'')"
  unfolding example_url_def by code_simp

lemma example_name: "repo_name example_url = ''r''"
  unfolding example_url_def by code_simp

lemma example_path: "cache_path_for example_url ''.repo_cache'' = example_cache_path"
  unfolding example_url_def example_cache_path_def by code_simp

lemma example_tree_metrics:
  "file_counts example_tree DEFAULT_CODE_EXTS = (2, 1)"
  "lines_of_code example_tree DEFAULT_CODE_EXTS = Inr 3"
  "repo_size_bytes example_tree = 27"
  by code_simp+

lemma example_world_fields:
  "http_get example_world =
     (\<lambda>url. Inr \<lparr>status_code = 200,
                    json_body = Inr (JList [JObj [(''sha'', JStr ''abc123'')]])\<rparr>)"
  "git_clone example_world = (\<lambda>url. Inr example_tree)"
  "git_fetch example_world = (\<lambda>local_path tree. Inr tree)"
  "git_rev_parse example_world = (\<lambda>local_path. Inr (''0fedcb'' @ [CHR 0x0A]))"
  "repos example_world = Map.empty"
  "caches example_world = Map.empty"
  "log example_world = []"
  by (simp_all add: example_world_def)

lemma example_remote:
  "get_remote_commit example_world example_url
     = (Inr (JStr ''abc123''),
        example_world\<lparr>log := [HttpGet ''https://api.github.com/repos/o/r/commits'']\<rparr>)"
  by (simp add: get_remote_commit_def example_parts example_world_fields)

lemma example_first_request:
  "get_stats example_world example_url config None = (Inr example_stats, example_world_after)"
  by (simp add: get_stats_def example_parts example_name example_remote example_path
      config_def path_join_def load_cached_stats_def cache_valid_def clone_or_fetch_def
      local_commit_def working_copy_def save_cached_stats_def example_tree_metrics
      example_stats_def example_world_after_def example_world_fields is_space_def Let_def)

theorem recomputed_stats_bounds_witness:
  "\<exists>total_files code_files size_bytes.
     py_get example_stats KEY_TOTAL_FILES = Inr (JInt total_files)
     \<and> py_get example_stats KEY_CODE_FILES = Inr (JInt code_files)
     \<and> py_get example_stats KEY_BYTES = Inr (JInt size_bytes)
     \<and> code_files \<le> total_files
     \<and> 0 \<le> size_bytes"
proof -
  have cached: "load_cached_stats example_world example_url (REPO_CACHES config) = Inr JNull"
    by (simp add: load_cached_stats_def example_world_fields)
  have stale: "cache_valid JNull (JStr ''abc123'') = Inr False"
    by (simp add: cache_valid_def)
  show ?thesis
    by (rule recomputed_stats_bounds [OF example_remote _ cached stale example_first_request])
      simp
qed







text \<open>
  C7. Statistics saved to the cache for a URL and loaded again for the same URL come back
  as they were saved, for every value in which each dictionary holds each key once, as a
  Python dictionary does.
\<close>

theorem cache_round_trip:
  assumes "wf_json stats"
  shows "load_cached_stats (save_cached_stats w repo_url cache_dir stats) repo_url cache_dir
           = Inr stats"
  using assms
  by (simp add: load_cached_stats_def save_cached_stats_def Let_def json_loads_dumps)

lemma example_stats_wf: "wf_json example_stats"
  using stats_keys_distinct by (simp add: example_stats_def)

theorem cache_round_trip_witness:
  "load_cached_stats
     (save_cached_stats example_world example_url (REPO_CACHES config) example_stats)
     example_url (REPO_CACHES config)
   = Inr example_stats"
  by (rule cache_round_trip [OF example_stats_wf])

section \<open>The cache test\<close>

text \<open>When the test of \<open>get_stats\<close> accepts the cached entry, the entry is returned as
  it was loaded and the request to the hosting API is the only effect.\<close>

lemma accepted_entry_is_returned:
  assumes remote: "get_remote_commit w repo_url = (Inr remote_sha, w1)"
    and available: "remote_sha \<noteq> JNull"
    and cached: "load_cached_stats w repo_url (REPO_CACHES cfg) = Inr cached"
    and valid: "cache_valid cached remote_sha = Inr True"
  shows "get_stats w repo_url cfg code_exts_arg = (Inr cached, w1)"
proof -
  obtain l where w1: "w1 = w\<lparr>log := log w @ l\<rparr>"
    using remote_commit_world [OF remote] by blast
  obtain parts where parts: "repo_parts repo_url = Some parts"
    using remote available by (auto simp: get_remote_commit_def split: option.splits)
  have "load_cached_stats w1 repo_url (REPO_CACHES cfg) = Inr cached"
    using cached by (simp add: w1)
  then show ?thesis
    by (simp add: get_stats_def Let_def parts remote available valid)
qed

text \<open>The test reads the key \<open>commit\<close>. The statistics that \<open>get_stats\<close> builds and saves
  have no such key, so the test accepts none of them, whatever the remote commit.\<close>

lemma commit_is_no_key:
  "''commit'' \<notin> {KEY_COMMIT, KEY_REPO, KEY_TOTAL_FILES, KEY_CODE_FILES, KEY_BYTES, KEY_LINES}"
  by (simp add: KEY_COMMIT_def KEY_REPO_def KEY_TOTAL_FILES_def KEY_CODE_FILES_def
      KEY_BYTES_def KEY_LINES_def)

lemma saved_entry_is_never_accepted:
  assumes "remote_sha \<noteq> JNull"
  shows "cache_valid
           (JObj [(KEY_COMMIT, sha), (KEY_REPO, url), (KEY_TOTAL_FILES, total_files),
                  (KEY_CODE_FILES, code_files), (KEY_BYTES, size_bytes),
                  (KEY_LINES, total_lines)])
           remote_sha
         = Inr False"
  using assms commit_is_no_key by (auto simp: cache_valid_def)

lemma example_world_after_fields:
  "http_get example_world_after = http_get example_world"
  "git_clone example_world_after = git_clone example_world"
  "git_fetch example_world_after = git_fetch example_world"
  "git_rev_parse example_world_after = git_rev_parse example_world"
  "repos example_world_after = [''.repo/r'' \<mapsto> example_tree]"
  "caches example_world_after = [example_cache_path \<mapsto> json_dumps example_stats]"
  "log example_world_after =
     [HttpGet ''https://api.github.com/repos/o/r/commits'',
      GitClone example_url ''.repo/r'',
      GitRevParse ''.repo/r'',
      CacheWrite example_cache_path]"
  by (simp_all add: example_world_after_def)

lemma example_remote_after:
  "get_remote_commit example_world_after example_url
     = (Inr (JStr ''abc123''),
        example_world_after
          \<lparr>log := log example_world_after
                   @ [HttpGet ''https://api.github.com/repos/o/r/commits'']\<rparr>)"
  by (simp add: get_remote_commit_def example_parts example_world_after_fields
      example_world_fields)

lemma example_cached_after:
  "load_cached_stats example_world_after example_url (REPO_CACHES config) = Inr example_stats"
  by (simp add: load_cached_stats_def config_def example_path example_world_after_fields
      json_loads_dumps example_stats_wf)

lemma example_stale_after: "cache_valid example_stats (JStr ''abc123'') = Inr False"
  unfolding example_stats_def by (rule saved_entry_is_never_accepted) simp

text \<open>
  C2 fails on the code. After the first request for the example URL the cache holds the
  statistics of commit \<open>abc123\<close>, and the hosting API still reports \<open>abc123\<close>. The second
  request nevertheless runs \<open>git fetch\<close> and \<open>git rev-parse\<close>, computes the statistics
  again and writes the cache again.
\<close>

theorem second_request_fetches_again:
  "get_stats example_world example_url config None = (Inr example_stats, example_world_after)
   \<and> load_cached_stats example_world_after example_url (REPO_CACHES config) = Inr example_stats
   \<and> py_get example_stats KEY_COMMIT = Inr (JStr ''abc123'')
   \<and> fst (get_remote_commit example_world_after example_url) = Inr (JStr ''abc123'')
   \<and> get_stats example_world_after example_url config None
       = (Inr example_stats,
          example_world_after
            \<lparr>log := log example_world_after
                     @ [HttpGet ''https://api.github.com/repos/o/r/commits'',
                        GitFetch ''.repo/r'',
                        GitRevParse ''.repo/r'',
                        CacheWrite example_cache_path]\<rparr>)"
proof -
  have commit: "py_get example_stats KEY_COMMIT = Inr (JStr ''abc123'')"
    by (simp add: example_stats_def)
  have cached: "load_cached_stats example_world_after example_url ''.repo_cache''
                  = Inr example_stats"
    using example_cached_after by (simp add: config_def)
  have second: "get_stats example_world_after example_url config None
       = (Inr example_stats,
          example_world_after
            \<lparr>log := log example_world_after
                     @ [HttpGet ''https://api.github.com/repos/o/r/commits'',
                        GitFetch ''.repo/r'',
                        GitRevParse ''.repo/r'',
                        CacheWrite example_cache_path]\<rparr>)"
    by (simp add: get_stats_def example_parts example_name example_remote_after example_path
        config_def path_join_def cached example_stale_after clone_or_fetch_def
        local_commit_def working_copy_def save_cached_stats_def example_tree_metrics
        example_world_after_fields example_world_fields is_space_def Let_def)
      (simp add: example_stats_def example_world_after_def)
  show ?thesis
    using example_first_request example_cached_after commit second
    by (simp add: example_remote_after)
qed

section \<open>Properties of the endpoint\<close>

text \<open>What \<open>get_stats\<close> returns is \<open>None\<close> or a dictionary that is not empty.\<close>

lemma cache_valid_truthy: "cache_valid cached remote_sha = Inr True \<Longrightarrow> truthy cached"
  by (auto simp: cache_valid_def split: if_splits)

lemma get_stats_none_or_truthy:
  assumes "get_stats w repo_url cfg code_exts_arg = (Inr stats, w')"
  shows "stats = JNull \<or> truthy stats"
proof (cases "repo_parts repo_url")
  case None
  with assms show ?thesis by (simp add: get_stats_def)
next
  case (Some parts)
  obtain res w1 where remote: "get_remote_commit w repo_url = (res, w1)"
    by (cases "get_remote_commit w repo_url")
  show ?thesis
  proof (cases res)
    case (Inl e)
    with assms Some remote show ?thesis by (simp add: get_stats_def Let_def)
  next
    case (Inr remote_sha)
    show ?thesis
    proof (cases "remote_sha = JNull")
      case True
      with assms Some remote Inr show ?thesis by (auto simp: get_stats_def Let_def)
    next
      case False
      obtain l where w1: "w1 = w\<lparr>log := log w @ l\<rparr>"
        using remote_commit_world [OF remote] by blast
      show ?thesis
      proof (cases "load_cached_stats w repo_url (REPO_CACHES cfg)")
        case (Inl e)
        with assms Some remote Inr False w1 show ?thesis
          by (simp add: get_stats_def Let_def)
      next
        case cached: (Inr cached)
        show ?thesis
        proof (cases "cache_valid cached remote_sha")
          case (Inl e)
          with assms Some remote Inr False w1 cached show ?thesis
            by (simp add: get_stats_def Let_def)
        next
          case valid: (Inr hit)
          show ?thesis
          proof (cases hit)
            case True
            then have "get_stats w repo_url cfg code_exts_arg = (Inr cached, w1)"
              using remote Inr False cached valid
              by (intro accepted_entry_is_returned) simp_all
            with assms True valid show ?thesis
              using cache_valid_truthy [of cached remote_sha] by simp
          next
            case miss: False
            have stale: "cache_valid cached remote_sha = Inr False"
              using valid miss by simp
            from remote [unfolded Inr] False cached stale assms
            obtain a b c d where "stats = JObj
               [(KEY_COMMIT, remote_sha), (KEY_REPO, JStr repo_url), (KEY_TOTAL_FILES, a),
                (KEY_CODE_FILES, b), (KEY_BYTES, c), (KEY_LINES, d)]"
              by (rule get_stats_miss) blast
            then show ?thesis by simp
          qed
        qed
      qed
    qed
  qed
qed

text \<open>
  C8. The handler of \<open>GET /repo\<close> answers a request without the parameter \<open>repo\<close> with
  status 400 and a JSON body with the key \<open>error\<close>; a request for which \<open>get_stats\<close>
  returns \<open>None\<close> with status 500 and such a body; and a request for which \<open>get_stats\<close>
  returns statistics with status 200, the rendered picture as body, the content type
  \<open>image/png\<close> and the disposition \<open>inline; filename=stats_\<close>, the first eight
  characters of the MD5 digest of the URL, \<open>.png\<close>.
\<close>

theorem endpoint_contract:
  "get_stats_image render_image md5_hex w None
     = (Inr \<lparr>status = 400, headers = [(''Content-Type'', ''application/json'')],
              payload = Json (JObj [(''error'', JStr MSG_NO_REPO)])\<rparr>, w)
   \<and> (repo \<noteq> [] \<and> get_stats w repo config None = (Inr JNull, w')
        \<longrightarrow> get_stats_image render_image md5_hex w (Some repo)
            = (Inr \<lparr>status = 500, headers = [(''Content-Type'', ''application/json'')],
                     payload = Json (JObj [(''error'', JStr MSG_NO_STATS)])\<rparr>, w'))
   \<and> (repo \<noteq> [] \<and> get_stats w repo config None = (Inr stats, w') \<and> stats \<noteq> JNull
        \<longrightarrow> get_stats_image render_image md5_hex w (Some repo)
            = (Inr \<lparr>status = 200,
                     headers = [(''Content-Type'', ''image/png''),
                                (''Content-Disposition'',
                                 ''inline; filename=stats_'' @ take 8 (md5_hex repo) @ ''.png'')],
                     payload = Bytes (render_image stats)\<rparr>, w'))"
proof -
  have "truthy stats"
    if "get_stats w repo config None = (Inr stats, w')" "stats \<noteq> JNull"
    using get_stats_none_or_truthy [OF that(1)] that(2) by simp
  then show ?thesis
    by (auto simp: get_stats_image_def jsonify_def)
qed

theorem endpoint_contract_witness:
  "get_stats_image (\<lambda>stats. ''PNG'') (\<lambda>url. ''a6e177a9cda136514ba3b28965426fb7'')
     example_world None
     = (Inr \<lparr>status = 400, headers = [(''Content-Type'', ''application/json'')],
              payload = Json (JObj [(''error'', JStr MSG_NO_REPO)])\<rparr>, example_world)
   \<and> get_stats_image (\<lambda>stats. ''PNG'') (\<lambda>url. ''a6e177a9cda136514ba3b28965426fb7'')
       example_world (Some ''https://gitlab.com/o/r'')
     = (Inr \<lparr>status = 500, headers = [(''Content-Type'', ''application/json'')],
              payload = Json (JObj [(''error'', JStr MSG_NO_STATS)])\<rparr>, example_world)
   \<and> get_stats_image (\<lambda>stats. ''PNG'') (\<lambda>url. ''a6e177a9cda136514ba3b28965426fb7'')
       example_world (Some example_url)
     = (Inr \<lparr>status = 200,
              headers = [(''Content-Type'', ''image/png''),
                         (''Content-Disposition'', ''inline; filename=stats_a6e177a9.png'')],
              payload = Bytes ''PNG''\<rparr>, example_world_after)"
proof -
  have none: "get_stats example_world ''https://gitlab.com/o/r'' config None
                = (Inr JNull, example_world)"
    by (simp add: get_stats_def repo_parts_def)
  have "example_stats \<noteq> JNull" "example_url \<noteq> []"
    by (simp_all add: example_stats_def example_url_def)
  then show ?thesis
    using endpoint_contract
            [of "\<lambda>stats. ''PNG''" "\<lambda>url. ''a6e177a9cda136514ba3b28965426fb7''"
                example_world "''https://gitlab.com/o/r''" example_world]
          endpoint_contract
            [of "\<lambda>stats. ''PNG''" "\<lambda>url. ''a6e177a9cda136514ba3b28965426fb7''"
                example_world example_url example_world_after example_stats]
          none example_first_request
    by simp
qed

text \<open>
  C3, as the claim states it, fails: a URL on another host is answered with status 500,
  not 400.
\<close>

theorem unsupported_url_answers_500:
  "get_stats_image (\<lambda>stats. ''PNG'') (\<lambda>url. ''7a90fa68a008dec815c037b6869cbd8a'')
     example_world (Some ''https://gitlab.com/o/r'')
   = (Inr \<lparr>status = 500, headers = [(''Content-Type'', ''application/json'')],
            payload = Json (JObj [(''error'', JStr MSG_NO_STATS)])\<rparr>, example_world)"
  by (simp add: get_stats_image_def jsonify_def get_stats_def repo_parts_def)

text \<open>When \<open>_get_remote_commit\<close> returns \<open>None\<close> for a URL it can parse: the hosting API
  answers with another status than 200, or its payload is no list, an empty list, or a
  list whose first element is a dictionary without a commit id.\<close>

lemma remote_unavailable:
  assumes "repo_parts repo_url = Some (owner, name)"
    and "http_get w (''https://api.github.com/repos/'' @ owner @ ''/'' @ name @ ''/commits'')
           = Inr resp"
  shows "fst (get_remote_commit w repo_url) = Inr JNull \<longleftrightarrow>
           status_code resp \<noteq> 200
           \<or> (\<exists>data. json_body resp = Inr data
                 \<and> (case data of
                        JList [] \<Rightarrow> True
                      | JList (x # xs) \<Rightarrow> py_get x ''sha'' = Inr JNull
                      | _ \<Rightarrow> True))"
  using assms
  by (auto simp: get_remote_commit_def Let_def split: sum.splits json.splits list.splits)

text \<open>
  C3, amended. A request whose parameter \<open>repo\<close> is not empty is answered with status
  500 and the fixed error body, without any detail, when the URL is malformed or
  unsupported (\<open>_repo_parts\<close> returns \<open>None\<close>) and when the remote is unavailable
  (\<open>_get_remote_commit\<close> returns \<open>None\<close>). A response of the handler has status 400 only
  when the parameter is absent or empty.
\<close>

theorem failures_answer_500:
  assumes "repo \<noteq> []"
    and "repo_parts repo = None \<or> fst (get_remote_commit w repo) = Inr JNull"
  shows "fst (get_stats_image render_image md5_hex w (Some repo))
           = Inr \<lparr>status = 500, headers = [(''Content-Type'', ''application/json'')],
                   payload = Json (JObj [(''error'', JStr MSG_NO_STATS)])\<rparr>
       \<and> (\<forall>repo_arg resp.
             fst (get_stats_image render_image md5_hex w repo_arg) = Inr resp
             \<and> status resp = 400 \<longrightarrow> repo_arg = None \<or> repo_arg = Some [])"
proof -
  have "fst (get_stats w repo config None) = Inr JNull"
  proof (cases "repo_parts repo")
    case None
    then show ?thesis by (simp add: get_stats_def)
  next
    case (Some parts)
    with assms(2) have "fst (get_remote_commit w repo) = Inr JNull" by simp
    then show ?thesis
      by (cases "get_remote_commit w repo") (simp add: get_stats_def Let_def Some)
  qed
  then have first: "fst (get_stats_image render_image md5_hex w (Some repo))
           = Inr \<lparr>status = 500, headers = [(''Content-Type'', ''application/json'')],
                   payload = Json (JObj [(''error'', JStr MSG_NO_STATS)])\<rparr>"
    using assms(1)
    by (cases "get_stats w repo config None") (simp add: get_stats_image_def jsonify_def)
  have "repo_arg = None \<or> repo_arg = Some []"
    if "fst (get_stats_image render_image md5_hex w repo_arg) = Inr resp" "status resp = 400"
    for repo_arg resp
    using that
    by (auto simp: get_stats_image_def jsonify_def split: option.splits if_splits prod.splits sum.splits)
  with first show ?thesis by blast
qed

theorem failures_answer_500_witness:
  "fst (get_stats_image (\<lambda>stats. ''PNG'') (\<lambda>url. ''7a90fa68a008dec815c037b6869cbd8a'')
          (example_world\<lparr>http_get := (\<lambda>url. Inr \<lparr>status_code = 404, json_body = Inl JSONDecodeError\<rparr>)\<rparr>)
          (Some example_url))
   = Inr \<lparr>status = 500, headers = [(''Content-Type'', ''application/json'')],
           payload = Json (JObj [(''error'', JStr MSG_NO_STATS)])\<rparr>"
proof -
  have "fst (get_remote_commit
               (example_world\<lparr>http_get := (\<lambda>url. Inr \<lparr>status_code = 404, json_body = Inl JSONDecodeError\<rparr>)\<rparr>)
               example_url) = Inr JNull"
    by (simp add: get_remote_commit_def example_parts)
  then have "repo_parts example_url = None
       \<or> fst (get_remote_commit
               (example_world\<lparr>http_get := (\<lambda>url. Inr \<lparr>status_code = 404, json_body = Inl JSONDecodeError\<rparr>)\<rparr>)
               example_url) = Inr JNull"
    by blast
  moreover have "example_url \<noteq> []"
    by (simp add: example_url_def)
  ultimately show ?thesis
    using failures_answer_500 by blast
qed

end
